theory Spec2Isabelle
  imports Main
begin

section \<open>Python values used by the layout\<close>

text \<open>
  The exceptions the layout code can raise: a failed \<^verbatim>\<open>assert\<close>, a list index out of
  range, and \<^verbatim>\<open>list.index\<close> on an absent element.
\<close>

datatype py_error = AssertionError | IndexError | ValueError

text \<open>Python multiplies by a comparison: \<^verbatim>\<open>True\<close> counts as 1 and \<^verbatim>\<open>False\<close> as 0.\<close>

definition b2i :: "bool \<Rightarrow> int" where
  "b2i b = (if b then 1 else 0)"

text \<open>\<^verbatim>\<open>range(n)\<close>: empty when \<open>n \<le> 0\<close>.\<close>

definition py_range :: "int \<Rightarrow> int list" where
  "py_range n = map int [0..<nat n]"

text \<open>List subscript of a list of length \<open>n\<close>: a negative index counts from the end.\<close>

definition py_index :: "nat \<Rightarrow> int \<Rightarrow> nat option" where
  "py_index n i =
     (let j = (if i < 0 then int n + i else i)
      in if 0 \<le> j \<and> j < int n then Some (nat j) else None)"

text \<open>\<^verbatim>\<open>xs.index(x)\<close>: the first position of \<open>x\<close>, \<open>None\<close> standing for ValueError.\<close>

fun index_of :: "'a list \<Rightarrow> 'a \<Rightarrow> nat option" where
  "index_of [] x = None"
| "index_of (y # ys) x =
     (if y = x then Some 0 else (case index_of ys x of None \<Rightarrow> None | Some i \<Rightarrow> Some (Suc i)))"


section \<open>Tiles\<close>

text \<open>
  Modelled from the spec: the class \<^verbatim>\<open>Tile\<close> (module \<^verbatim>\<open>tile\<close>) is imported by
  \<^verbatim>\<open>tile_layout.py\<close> but its file is not part of the sources at hand. The spec describes
  a Tile as a rectangular region record with origin (row, column), span (row span, column
  span), an occupancy flag and an optional owning item. A new Tile is unfilled;
  \<^verbatim>\<open>Tile.addWidget\<close> marks it filled and stores the item; \<^verbatim>\<open>Tile.updateSize\<close> replaces
  the geometry; the getters read the fields. Pixel sizes are left out.
\<close>

record 'w tile =
  from_row :: int
  from_column :: int
  row_span :: int
  column_span :: int
  filled :: bool
  widget :: "'w option"

definition Tile :: "int \<Rightarrow> int \<Rightarrow> int \<Rightarrow> int \<Rightarrow> 'w tile" where
  "Tile fr fc rs cs =
     \<lparr>from_row = fr, from_column = fc, row_span = rs, column_span = cs,
      filled = False, widget = None\<rparr>"

definition tile_addWidget :: "'w \<Rightarrow> 'w tile \<Rightarrow> 'w tile" where
  "tile_addWidget w t = t\<lparr>filled := True, widget := Some w\<rparr>"

definition updateSize :: "int \<Rightarrow> int \<Rightarrow> int \<Rightarrow> int \<Rightarrow> 'w tile \<Rightarrow> 'w tile" where
  "updateSize fr fc rs cs t =
     t\<lparr>from_row := fr, from_column := fc, row_span := rs, column_span := cs\<rparr>"

section \<open>The layout state\<close>

text \<open>
  Tiles are objects shared between cells of \<^verbatim>\<open>tile_map\<close> and the registry
  \<^verbatim>\<open>widget_tile_couple\<close>, so the model keeps them in a store (\<open>heap\<close>): a tile's identity
  is its position in the store, a new tile is appended. \<open>tileResized\<close> collects the
  emissions of the signal of that name.
\<close>

record 'w layout =
  row_number :: int
  column_number :: int
  tile_map :: "nat list list"
  heap :: "'w tile list"
  couple_widget :: "'w list"
  couple_tile :: "nat list"
  tileResized :: "('w \<times> int \<times> int \<times> int \<times> int) list"

text \<open>\<^verbatim>\<open>self.tile_map[r][c]\<close> and \<^verbatim>\<open>self.tile_map[r][c] = v\<close>.\<close>

definition map_get :: "nat list list \<Rightarrow> int \<Rightarrow> int \<Rightarrow> py_error + nat" where
  "map_get m r c =
     (case py_index (length m) r of
        None \<Rightarrow> Inl IndexError
      | Some i \<Rightarrow>
          (case py_index (length (m ! i)) c of
             None \<Rightarrow> Inl IndexError
           | Some j \<Rightarrow> Inr (m ! i ! j)))"

definition map_set :: "nat list list \<Rightarrow> int \<Rightarrow> int \<Rightarrow> nat \<Rightarrow> py_error + nat list list" where
  "map_set m r c v =
     (case py_index (length m) r of
        None \<Rightarrow> Inl IndexError
      | Some i \<Rightarrow>
          (case py_index (length (m ! i)) c of
             None \<Rightarrow> Inl IndexError
           | Some j \<Rightarrow> Inr (m[i := (m ! i)[j := v]])))"

text \<open>
  The comprehension
  \<^verbatim>\<open>[(from_row + row, from_column + column) for row in range(row_span) for column in range(column_span)]\<close>.
\<close>

definition area_cells :: "int \<Rightarrow> int \<Rightarrow> int \<Rightarrow> int \<Rightarrow> (int \<times> int) list" where
  "area_cells fr fc rs cs =
     concat (map (\<lambda>row. map (\<lambda>column. (fr + row, fc + column)) (py_range cs)) (py_range rs))"

section \<open>Creating tiles\<close>

text \<open>The loop \<^verbatim>\<open>for (row, column) in tile_positions: self.tile_map[row][column] = tile\<close>.\<close>

fun set_cells :: "'w layout \<Rightarrow> (int \<times> int) list \<Rightarrow> nat \<Rightarrow> py_error option \<times> 'w layout" where
  "set_cells s [] t = (None, s)"
| "set_cells s ((r, c) # rest) t =
     (case map_set (tile_map s) r c t of
        Inl e \<Rightarrow> (Some e, s)
      | Inr m \<Rightarrow> set_cells (s\<lparr>tile_map := m\<rparr>) rest t)"

definition createTile ::
  "'w layout \<Rightarrow> int \<Rightarrow> int \<Rightarrow> int \<Rightarrow> int \<Rightarrow> bool \<Rightarrow> (py_error + nat) \<times> 'w layout" where
  "createTile s fr fc rs cs update_tile_map =
     (let t = length (heap s);
          s1 = s\<lparr>heap := heap s @ [Tile fr fc rs cs]\<rparr>
      in if update_tile_map
         then (case set_cells s1 (area_cells fr fc rs cs) t of
                 (Some e, s2) \<Rightarrow> (Inl e, s2)
               | (None, s2) \<Rightarrow> (Inr t, s2))
         else (Inr t, s1))"

text \<open>\<^verbatim>\<open>__createTileMap\<close>: the inner loop appends to the last row, the outer adds a row.\<close>

fun createTileMap_columns :: "'w layout \<Rightarrow> int \<Rightarrow> int list \<Rightarrow> py_error option \<times> 'w layout" where
  "createTileMap_columns s i_row [] = (None, s)"
| "createTileMap_columns s i_row (i_column # rest) =
     (case createTile s i_row i_column 1 1 False of
        (Inl e, s1) \<Rightarrow> (Some e, s1)
      | (Inr t, s1) \<Rightarrow>
          (if tile_map s1 = [] then (Some IndexError, s1)
           else createTileMap_columns
                  (s1\<lparr>tile_map := butlast (tile_map s1) @ [last (tile_map s1) @ [t]]\<rparr>)
                  i_row rest))"

fun createTileMap_rows :: "'w layout \<Rightarrow> int list \<Rightarrow> py_error option \<times> 'w layout" where
  "createTileMap_rows s [] = (None, s)"
| "createTileMap_rows s (i_row # rest) =
     (case createTileMap_columns (s\<lparr>tile_map := tile_map s @ [[]]\<rparr>) i_row
             (py_range (column_number s)) of
        (Some e, s1) \<Rightarrow> (Some e, s1)
      | (None, s1) \<Rightarrow> createTileMap_rows s1 rest)"

definition createTileMap :: "'w layout \<Rightarrow> py_error option \<times> 'w layout" where
  "createTileMap s = createTileMap_rows s (py_range (row_number s))"

text \<open>\<^verbatim>\<open>TileLayout.__init__\<close>, without the display parameters.\<close>

definition init :: "int \<Rightarrow> int \<Rightarrow> py_error option \<times> 'w layout" where
  "init rows columns =
     createTileMap
       \<lparr>row_number = rows, column_number = columns, tile_map = [], heap = [],
        couple_widget = [], couple_tile = [], tileResized = []\<rparr>"

section \<open>Merging and splitting\<close>

text \<open>
  \<^verbatim>\<open>__mergeTiles\<close>: each listed cell is read (for the Qt bookkeeping) and then made to
  reference \<open>t\<close>; afterwards the tile takes the new geometry.
\<close>

fun merge_loop :: "'w layout \<Rightarrow> nat \<Rightarrow> (int \<times> int) list \<Rightarrow> py_error option \<times> 'w layout" where
  "merge_loop s t [] = (None, s)"
| "merge_loop s t ((r, c) # rest) =
     (case map_get (tile_map s) r c of
        Inl e \<Rightarrow> (Some e, s)
      | Inr old \<Rightarrow>
          (case map_set (tile_map s) r c t of
             Inl e \<Rightarrow> (Some e, s)
           | Inr m \<Rightarrow> merge_loop (s\<lparr>tile_map := m\<rparr>) t rest))"

definition mergeTiles ::
  "'w layout \<Rightarrow> nat \<Rightarrow> int \<Rightarrow> int \<Rightarrow> int \<Rightarrow> int \<Rightarrow> (int \<times> int) list
     \<Rightarrow> py_error option \<times> 'w layout" where
  "mergeTiles s t fr fc rs cs tiles_to_merge =
     (case merge_loop s t tiles_to_merge of
        (Some e, s1) \<Rightarrow> (Some e, s1)
      | (None, s1) \<Rightarrow>
          (None, s1\<lparr>heap := (heap s1)[t := updateSize fr fc rs cs (heap s1 ! t)]\<rparr>))"

text \<open>\<^verbatim>\<open>__splitTiles\<close>: a new unit tile for each listed cell, then the new geometry.\<close>

fun split_loop :: "'w layout \<Rightarrow> (int \<times> int) list \<Rightarrow> py_error option \<times> 'w layout" where
  "split_loop s [] = (None, s)"
| "split_loop s ((r, c) # rest) =
     (case createTile s r c 1 1 True of
        (Inl e, s1) \<Rightarrow> (Some e, s1)
      | (Inr new, s1) \<Rightarrow> split_loop s1 rest)"

definition splitTiles ::
  "'w layout \<Rightarrow> nat \<Rightarrow> int \<Rightarrow> int \<Rightarrow> int \<Rightarrow> int \<Rightarrow> (int \<times> int) list
     \<Rightarrow> py_error option \<times> 'w layout" where
  "splitTiles s t fr fc rs cs tiles_to_split =
     (case split_loop s tiles_to_split of
        (Some e, s1) \<Rightarrow> (Some e, s1)
      | (None, s1) \<Rightarrow>
          (None, s1\<lparr>heap := (heap s1)[t := updateSize fr fc rs cs (heap s1 ! t)]\<rparr>))"



section \<open>Placement\<close>

text \<open>
  \<^verbatim>\<open>isAreaEmpty\<close>: the comprehension inside \<^verbatim>\<open>all([...])\<close> reads every cell of the
  rectangle before \<^verbatim>\<open>all\<close> looks at the flags.
\<close>

fun unfilled_flags :: "'w layout \<Rightarrow> (int \<times> int) list \<Rightarrow> py_error + bool list" where
  "unfilled_flags s [] = Inr []"
| "unfilled_flags s ((r, c) # rest) =
     (case map_get (tile_map s) r c of
        Inl e \<Rightarrow> Inl e
      | Inr t \<Rightarrow>
          (case unfilled_flags s rest of
             Inl e \<Rightarrow> Inl e
           | Inr bs \<Rightarrow> Inr ((\<not> filled (heap s ! t)) # bs)))"

definition isAreaEmpty :: "'w layout \<Rightarrow> int \<Rightarrow> int \<Rightarrow> int \<Rightarrow> int \<Rightarrow> py_error + bool" where
  "isAreaEmpty s fr fc rs cs =
     (if fr + rs > row_number s \<or> fc + cs > column_number s \<or> fr < 0 \<or> fc < 0
      then Inr False
      else (case unfilled_flags s (area_cells fr fc rs cs) of
              Inl e \<Rightarrow> Inl e
            | Inr bs \<Rightarrow> Inr (list_all (\<lambda>b. b) bs)))"

definition addWidget ::
  "'w layout \<Rightarrow> 'w \<Rightarrow> int \<Rightarrow> int \<Rightarrow> int \<Rightarrow> int \<Rightarrow> py_error option \<times> 'w layout" where
  "addWidget s w fr fc rs cs =
     (if w \<in> set (couple_widget s) then (Some AssertionError, s)
      else (case isAreaEmpty s fr fc rs cs of
              Inl e \<Rightarrow> (Some e, s)
            | Inr False \<Rightarrow> (Some AssertionError, s)
            | Inr True \<Rightarrow>
                (case map_get (tile_map s) fr fc of
                   Inl e \<Rightarrow> (Some e, s)
                 | Inr t \<Rightarrow>
                     (let s1 = s\<lparr>couple_widget := couple_widget s @ [w],
                                 couple_tile := couple_tile s @ [t]\<rparr>
                      in (case (if rs > 1 \<or> cs > 1
                                then mergeTiles s1 t fr fc rs cs (tl (area_cells fr fc rs cs))
                                else (None, s1)) of
                            (Some e, s2) \<Rightarrow> (Some e, s2)
                          | (None, s2) \<Rightarrow>
                              (None, s2\<lparr>heap := (heap s2)[t := tile_addWidget w (heap s2 ! t)]\<rparr>))))))"


section \<open>Resizing\<close>

text \<open>\<^verbatim>\<open>__getTilesToSplit\<close>: reads only.\<close>

definition getTilesToSplit ::
  "'w layout \<Rightarrow> int \<times> int \<Rightarrow> int \<Rightarrow> int \<Rightarrow> int \<Rightarrow> py_error + (int \<times> (int \<times> int) list)" where
  "getTilesToSplit s direction fr fc tile_number =
     (case map_get (tile_map s) fr fc of
        Inl e \<Rightarrow> Inl e
      | Inr t \<Rightarrow>
          (let rs = row_span (heap s ! t);
               cs = column_span (heap s ! t);
               dir_x = fst direction;
               dir_y = snd direction;
               n = (if - tile_number * (dir_x + dir_y) < cs * b2i (dir_x \<noteq> 0) + rs * b2i (dir_y \<noteq> 0)
                    then tile_number
                    else (1 - cs) * dir_x + (1 - rs) * dir_y)
           in Inr (n,
                concat (map (\<lambda>row. map (\<lambda>column.
                          (fr + row + (rs - 2 * row - 1) * b2i (dir_y = 1),
                           fc + column + (cs - 2 * column - 1) * b2i (dir_x = 1)))
                        (py_range (- n * dir_x + cs * b2i (dir_y \<noteq> 0))))
                     (py_range (- n * dir_y + rs * b2i (dir_x \<noteq> 0)))))))"

text \<open>
  \<^verbatim>\<open>__getTilesToMerge\<close>. The inner loop returns from the whole function at the first filled
  cell of a strip: \<open>strip_blocked\<close> is that loop, \<open>True\<close> standing for the early return.
  \<open>merge_scan\<close> is the outer loop with its two accumulators.
\<close>

fun strip_blocked :: "'w layout \<Rightarrow> (int \<times> int) list \<Rightarrow> py_error + bool" where
  "strip_blocked s [] = Inr False"
| "strip_blocked s ((r, c) # rest) =
     (case map_get (tile_map s) r c of
        Inl e \<Rightarrow> Inl e
      | Inr t \<Rightarrow> (if filled (heap s ! t) then Inr True else strip_blocked s rest))"

fun merge_scan ::
  "'w layout \<Rightarrow> (int \<Rightarrow> (int \<times> int) list) \<Rightarrow> int \<Rightarrow> int list \<Rightarrow> int \<Rightarrow> (int \<times> int) list list
     \<Rightarrow> py_error + (int \<times> (int \<times> int) list)" where
  "merge_scan s strip d [] available acc = Inr (available, concat acc)"
| "merge_scan s strip d (k # ks) available acc =
     (case strip_blocked s (strip k) of
        Inl e \<Rightarrow> Inl e
      | Inr True \<Rightarrow> Inr (available, concat acc)
      | Inr False \<Rightarrow> merge_scan s strip d ks (available + d) (acc @ [strip k]))"

definition merge_bound :: "'w layout \<Rightarrow> int \<times> int \<Rightarrow> int \<Rightarrow> int \<Rightarrow> int \<Rightarrow> int \<Rightarrow> int \<Rightarrow> int" where
  "merge_bound s direction fr fc rs cs tile_number =
     (let dir_x = fst direction; dir_y = snd direction
      in if dir_x + dir_y = - 1
         then max tile_number (- fc * b2i (dir_x \<noteq> 0) - fr * b2i (dir_y \<noteq> 0))
         else min tile_number
                ((column_number s - fc - cs) * b2i (dir_x \<noteq> 0)
                 + (row_number s - fr - rs) * b2i (dir_y \<noteq> 0)))"

definition column_strip :: "int \<Rightarrow> int \<Rightarrow> int \<Rightarrow> int \<Rightarrow> int \<Rightarrow> int \<Rightarrow> (int \<times> int) list" where
  "column_strip dir_x fr fc rs cs column =
     (let column_delta = (cs + column) * b2i (dir_x = 1) + (- column - 1) * b2i (dir_x = - 1)
      in map (\<lambda>row. (fr + row, fc + column_delta)) (py_range rs))"

definition row_strip :: "int \<Rightarrow> int \<Rightarrow> int \<Rightarrow> int \<Rightarrow> int \<Rightarrow> int \<Rightarrow> (int \<times> int) list" where
  "row_strip dir_y fr fc rs cs row =
     (let row_delta = (rs + row) * b2i (dir_y = 1) + (- row - 1) * b2i (dir_y = - 1)
      in map (\<lambda>column. (fr + row_delta, fc + column)) (py_range cs))"

definition getTilesToMerge ::
  "'w layout \<Rightarrow> int \<times> int \<Rightarrow> int \<Rightarrow> int \<Rightarrow> int \<Rightarrow> py_error + (int \<times> (int \<times> int) list)" where
  "getTilesToMerge s direction fr fc tile_number =
     (case map_get (tile_map s) fr fc of
        Inl e \<Rightarrow> Inl e
      | Inr t \<Rightarrow>
          (let rs = row_span (heap s ! t);
               cs = column_span (heap s ! t);
               dir_x = fst direction;
               dir_y = snd direction;
               n = merge_bound s direction fr fc rs cs tile_number
           in if dir_x \<noteq> 0
              then merge_scan s (column_strip dir_x fr fc rs cs) dir_x (py_range (n * dir_x)) 0 []
              else merge_scan s (row_strip dir_y fr fc rs cs) dir_y (py_range (n * dir_y)) 0 []))"

text \<open>\<^verbatim>\<open>resizeTile\<close>.\<close>

definition resizeTile ::
  "'w layout \<Rightarrow> int \<times> int \<Rightarrow> int \<Rightarrow> int \<Rightarrow> int \<Rightarrow> py_error option \<times> 'w layout" where
  "resizeTile s direction fr fc tile_number =
     (case map_get (tile_map s) fr fc of
        Inl e \<Rightarrow> (Some e, s)
      | Inr t \<Rightarrow>
          (let dir_x = fst direction;
               dir_y = snd direction;
               increase = (tile_number * (dir_x + dir_y) > 0)
           in (case (if increase then getTilesToMerge s direction fr fc tile_number
                     else getTilesToSplit s direction fr fc tile_number) of
                 Inl e \<Rightarrow> (Some e, s)
               | Inr (n, tiles_to_merge) \<Rightarrow>
                   (let cs = column_span (heap s ! t) + n * dir_x;
                        fc1 = fc + n * b2i (dir_x = - 1);
                        rs = row_span (heap s ! t) + n * dir_y;
                        fr1 = fr + n * b2i (dir_y = - 1)
                    in if tiles_to_merge = [] then (None, s)
                       else (case (if increase then mergeTiles s t fr1 fc1 rs cs tiles_to_merge
                                   else splitTiles s t fr1 fc1 rs cs tiles_to_merge) of
                               (Some e, s1) \<Rightarrow> (Some e, s1)
                             | (None, s1) \<Rightarrow>
                                 (case index_of (couple_tile s1) t of
                                    None \<Rightarrow> (Some ValueError, s1)
                                  | Some index \<Rightarrow>
                                      (if index \<ge> length (couple_widget s1)
                                       then (Some IndexError, s1)
                                       else (None, s1\<lparr>tileResized := tileResized s1 @
                                               [(couple_widget s1 ! index, fr1, fc1, rs, cs)]\<rparr>))))))))"

section \<open>Reading the grid\<close>

text \<open>
  A cell is in the grid when both coordinates are in range; \<open>owner\<close> is the tile identity
  the map holds for a cell and \<open>tile_at\<close> the tile itself. \<open>shape_ok\<close> says that the map
  has \<open>row_number\<close> rows of \<open>column_number\<close> cells each.
\<close>

definition in_grid :: "'w layout \<Rightarrow> int \<Rightarrow> int \<Rightarrow> bool" where
  "in_grid s r c \<longleftrightarrow> 0 \<le> r \<and> r < row_number s \<and> 0 \<le> c \<and> c < column_number s"

definition owner :: "'w layout \<Rightarrow> int \<Rightarrow> int \<Rightarrow> nat" where
  "owner s r c = tile_map s ! nat r ! nat c"

definition tile_at :: "'w layout \<Rightarrow> int \<Rightarrow> int \<Rightarrow> 'w tile" where
  "tile_at s r c = heap s ! owner s r c"

definition shape_ok :: "'w layout \<Rightarrow> bool" where
  "shape_ok s \<longleftrightarrow>
     length (tile_map s) = nat (row_number s) \<and>
     (\<forall>row \<in> set (tile_map s). length row = nat (column_number s))"

text \<open>
  The rectangle of a tile, as a predicate on cells and as a list of cells, and the list
  of all cells of the grid.
\<close>

definition covers :: "'w tile \<Rightarrow> int \<Rightarrow> int \<Rightarrow> bool" where
  "covers t r c \<longleftrightarrow>
     from_row t \<le> r \<and> r < from_row t + row_span t \<and>
     from_column t \<le> c \<and> c < from_column t + column_span t"

definition tile_cells :: "'w tile \<Rightarrow> (int \<times> int) list" where
  "tile_cells t = area_cells (from_row t) (from_column t) (row_span t) (column_span t)"

definition grid_cells :: "'w layout \<Rightarrow> (int \<times> int) list" where
  "grid_cells s = area_cells 0 0 (row_number s) (column_number s)"

section \<open>The invariant of the layout\<close>

text \<open>
  \<open>partition_ok\<close>: every cell of the grid references a tile of the store whose rectangle
  covers the cell, and every cell of that rectangle is in the grid and references the
  same tile. \<open>units_ok\<close>: a referenced tile that is not filled is a unit tile.
  \<open>registry_ok\<close>: the two lists of \<^verbatim>\<open>widget_tile_couple\<close> have the same length and no
  repetition, every registered tile is filled and is referenced by the map at its own
  origin, and every filled tile referenced by the map is registered.
\<close>

definition partition_ok :: "'w layout \<Rightarrow> bool" where
  "partition_ok s \<longleftrightarrow>
     (\<forall>(r, c) \<in> set (grid_cells s).
        owner s r c < length (heap s) \<and>
        covers (tile_at s r c) r c \<and>
        (\<forall>(r', c') \<in> set (tile_cells (tile_at s r c)).
           in_grid s r' c' \<and> owner s r' c' = owner s r c))"

definition units_ok :: "'w layout \<Rightarrow> bool" where
  "units_ok s \<longleftrightarrow>
     (\<forall>(r, c) \<in> set (grid_cells s).
        filled (tile_at s r c) \<or>
        (row_span (tile_at s r c) = 1 \<and> column_span (tile_at s r c) = 1))"

definition registry_ok :: "'w layout \<Rightarrow> bool" where
  "registry_ok s \<longleftrightarrow>
     length (couple_widget s) = length (couple_tile s) \<and>
     distinct (couple_widget s) \<and>
     distinct (couple_tile s) \<and>
     (\<forall>t \<in> set (couple_tile s).
        t < length (heap s) \<and> filled (heap s ! t) \<and>
        in_grid s (from_row (heap s ! t)) (from_column (heap s ! t)) \<and>
        owner s (from_row (heap s ! t)) (from_column (heap s ! t)) = t) \<and>
     (\<forall>(r, c) \<in> set (grid_cells s).
        filled (tile_at s r c) \<longrightarrow> owner s r c \<in> set (couple_tile s))"

definition grid_inv :: "'w layout \<Rightarrow> bool" where
  "grid_inv s \<longleftrightarrow> shape_ok s \<and> partition_ok s \<and> units_ok s"

definition inv :: "'w layout \<Rightarrow> bool" where
  "inv s \<longleftrightarrow> grid_inv s \<and> registry_ok s"

text \<open>The identities of the tiles of row \<open>k\<close> when a map of rows of \<open>n\<close> cells is built from store size \<open>base\<close>.\<close>

definition row_ids :: "nat \<Rightarrow> nat \<Rightarrow> nat \<Rightarrow> nat list" where
  "row_ids base n k = [base + k * n..<base + k * n + n]"

section \<open>Directions and rectangles\<close>

text \<open>
  A direction is a pair \<open>(dir_x, dir_y)\<close>; the four the resize code is written for are east
  \<open>(1, 0)\<close>, west \<open>(-1, 0)\<close>, south \<open>(0, 1)\<close> and north \<open>(0, -1)\<close> (rows grow downwards).
  \<open>in_rect\<close> is membership of a cell in the rectangle with the given origin and spans.
\<close>

definition unit_direction :: "int \<times> int \<Rightarrow> bool" where
  "unit_direction d \<longleftrightarrow> d = (1, 0) \<or> d = (- 1, 0) \<or> d = (0, 1) \<or> d = (0, - 1)"

definition in_rect :: "int \<Rightarrow> int \<Rightarrow> int \<Rightarrow> int \<Rightarrow> int \<Rightarrow> int \<Rightarrow> bool" where
  "in_rect fr fc rs cs r c \<longleftrightarrow> fr \<le> r \<and> r < fr + rs \<and> fc \<le> c \<and> c < fc + cs"

section \<open>Growth in the words of the specification\<close>

text \<open>
  For a tile with origin \<open>(fr, fc)\<close> and spans \<open>rs\<close>, \<open>cs\<close>: \<open>strip d fr fc rs cs i\<close> is the
  \<open>i\<close>-th full row or column beyond the edge of the tile that faces direction \<open>d\<close> (the one
  with \<open>i = 0\<close> touches the tile); \<open>free_strip\<close> says that no cell of a strip is owned by a
  filled tile; \<open>room\<close> is the number of strips between that edge and the border of the
  grid.
\<close>

definition strip :: "int \<times> int \<Rightarrow> int \<Rightarrow> int \<Rightarrow> int \<Rightarrow> int \<Rightarrow> int \<Rightarrow> (int \<times> int) list" where
  "strip d fr fc rs cs i =
     (if d = (1, 0) then area_cells fr (fc + cs + i) rs 1
      else if d = (- 1, 0) then area_cells fr (fc - 1 - i) rs 1
      else if d = (0, 1) then area_cells (fr + rs + i) fc 1 cs
      else area_cells (fr - 1 - i) fc 1 cs)"

definition free_strip :: "'w layout \<Rightarrow> (int \<times> int) list \<Rightarrow> bool" where
  "free_strip s cells = list_all (\<lambda>(r, c). \<not> filled (tile_at s r c)) cells"

definition room :: "'w layout \<Rightarrow> int \<times> int \<Rightarrow> int \<Rightarrow> int \<Rightarrow> int \<Rightarrow> int \<Rightarrow> int" where
  "room s d fr fc rs cs =
     (if d = (1, 0) then column_number s - (fc + cs)
      else if d = (- 1, 0) then fc
      else if d = (0, 1) then row_number s - (fr + rs)
      else fr)"

text \<open>
  \<open>free_count\<close>: the number of consecutive free strips, counted from the edge of the tile,
  among the first \<open>min \<bar>n\<bar> room\<close> strips (the request clamped at the border of the grid).
\<close>

definition free_count :: "'w layout \<Rightarrow> int \<times> int \<Rightarrow> int \<Rightarrow> int \<Rightarrow> int \<Rightarrow> int \<Rightarrow> int \<Rightarrow> nat" where
  "free_count s d fr fc rs cs n =
     length (takeWhile (\<lambda>i. free_strip s (strip d fr fc rs cs i))
               (py_range (min \<bar>n\<bar> (room s d fr fc rs cs))))"

section \<open>Tiles that lie in the grid\<close>

text \<open>
  \<open>placed_ok s t\<close>: the tile with identity \<open>t\<close> has both spans at least 1 and its rectangle
  lies inside the grid.
\<close>

definition placed_ok :: "'w layout \<Rightarrow> nat \<Rightarrow> bool" where
  "placed_ok s t \<longleftrightarrow>
     1 \<le> row_span (heap s ! t) \<and> 1 \<le> column_span (heap s ! t) \<and>
     0 \<le> from_row (heap s ! t) \<and>
     from_row (heap s ! t) + row_span (heap s ! t) \<le> row_number s \<and>
     0 \<le> from_column (heap s ! t) \<and>
     from_column (heap s ! t) + column_span (heap s ! t) \<le> column_number s"

(*DEFS-END*)

section \<open>Indexing lemmas\<close>

lemma py_index_in_range: "0 \<le> i \<Longrightarrow> i < int n \<Longrightarrow> py_index n i = Some (nat i)"
  by (simp add: py_index_def)

lemma set_py_range: "set (py_range n) = {0..<n}"
proof -
  have "int ` {0..<nat n} = {0..<n}"
  proof (rule set_eqI)
    fix x show "x \<in> int ` {0..<nat n} \<longleftrightarrow> x \<in> {0..<n}"
    proof
      assume "x \<in> int ` {0..<nat n}" then show "x \<in> {0..<n}" by auto
    next
      assume h: "x \<in> {0..<n}"
      then have "x = int (nat x)" "nat x \<in> {0..<nat n}" by auto
      then show "x \<in> int ` {0..<nat n}" by (rule image_eqI)
    qed
  qed
  then show ?thesis by (simp add: py_range_def)
qed

lemma set_area_cells:
  "set (area_cells fr fc rs cs) = {(r, c). fr \<le> r \<and> r < fr + rs \<and> fc \<le> c \<and> c < fc + cs}"
proof (rule set_eqI)
  fix x :: "int \<times> int"
  obtain r c where x: "x = (r, c)" by (cases x)
  show "x \<in> set (area_cells fr fc rs cs) \<longleftrightarrow> x \<in> {(r, c). fr \<le> r \<and> r < fr + rs \<and> fc \<le> c \<and> c < fc + cs}"
  proof
    assume "x \<in> set (area_cells fr fc rs cs)"
    then show "x \<in> {(r, c). fr \<le> r \<and> r < fr + rs \<and> fc \<le> c \<and> c < fc + cs}"
      by (auto simp: area_cells_def set_py_range)
  next
    assume "x \<in> {(r, c). fr \<le> r \<and> r < fr + rs \<and> fc \<le> c \<and> c < fc + cs}"
    then have rc: "r - fr \<in> {0..<rs}" "c - fc \<in> {0..<cs}" using x by auto
    have "(r, c) \<in> (\<lambda>column. (fr + (r - fr), fc + column)) ` {0..<cs}"
      using rc(2) by (intro image_eqI[of _ _ "c - fc"]) auto
    then have "\<exists>row \<in> {0..<rs}. (r, c) \<in> (\<lambda>column. (fr + row, fc + column)) ` {0..<cs}"
      using rc(1) by (intro bexI[of _ "r - fr"])
    then show "x \<in> set (area_cells fr fc rs cs)"
      by (simp add: area_cells_def set_py_range x)
  qed
qed

lemma map_get_in_grid:
  assumes "shape_ok s" "in_grid s r c"
  shows "map_get (tile_map s) r c = Inr (owner s r c)"
proof -
  have r: "py_index (length (tile_map s)) r = Some (nat r)"
    using assms by (intro py_index_in_range) (auto simp: shape_ok_def in_grid_def)
  have "tile_map s ! nat r \<in> set (tile_map s)"
    using assms by (intro nth_mem) (auto simp: shape_ok_def in_grid_def)
  then have "length (tile_map s ! nat r) = nat (column_number s)"
    using assms by (simp add: shape_ok_def)
  then have c: "py_index (length (tile_map s ! nat r)) c = Some (nat c)"
    using assms by (intro py_index_in_range) (auto simp: in_grid_def)
  show ?thesis by (simp add: map_get_def r c owner_def)
qed

lemma unfilled_flags_in_grid:
  assumes "shape_ok s" "\<forall>(r, c) \<in> set cells. in_grid s r c"
  shows "unfilled_flags s cells = Inr (map (\<lambda>(r, c). \<not> filled (tile_at s r c)) cells)"
  using assms(2)
proof (induction cells)
  case Nil
  then show ?case by simp
next
  case (Cons x cells)
  obtain r c where x: "x = (r, c)" by (cases x)
  with Cons.prems have "in_grid s r c" by simp
  then have "map_get (tile_map s) r c = Inr (owner s r c)"
    using assms(1) by (rule map_get_in_grid[rotated])
  moreover have "unfilled_flags s cells = Inr (map (\<lambda>(r, c). \<not> filled (tile_at s r c)) cells)"
    using Cons by simp
  ultimately show ?case by (simp add: x tile_at_def)
qed

section \<open>The emptiness check\<close>

lemma isAreaEmpty_in_grid:
  assumes "shape_ok s"
  shows "isAreaEmpty s fr fc rs cs =
           Inr (\<not> (fr + rs > row_number s \<or> fc + cs > column_number s \<or> fr < 0 \<or> fc < 0) \<and>
                (\<forall>r c. fr \<le> r \<and> r < fr + rs \<and> fc \<le> c \<and> c < fc + cs
                        \<longrightarrow> \<not> filled (tile_at s r c)))"
proof (cases "fr + rs > row_number s \<or> fc + cs > column_number s \<or> fr < 0 \<or> fc < 0")
  case True
  then show ?thesis by (simp add: isAreaEmpty_def)
next
  case False
  have "\<forall>(r, c) \<in> set (area_cells fr fc rs cs). in_grid s r c"
    using False by (auto simp: set_area_cells in_grid_def)
  then have "unfilled_flags s (area_cells fr fc rs cs) =
      Inr (map (\<lambda>(r, c). \<not> filled (tile_at s r c)) (area_cells fr fc rs cs))"
    using assms by (intro unfilled_flags_in_grid)
  moreover have "list_all (\<lambda>b. b) (map (\<lambda>(r, c). \<not> filled (tile_at s r c)) (area_cells fr fc rs cs))
      \<longleftrightarrow> (\<forall>r c. fr \<le> r \<and> r < fr + rs \<and> fc \<le> c \<and> c < fc + cs \<longrightarrow> \<not> filled (tile_at s r c))"
    by (auto simp: list_all_iff set_area_cells)
  ultimately show ?thesis using False by (simp add: isAreaEmpty_def)
qed

lemma area_cells_empty: "rs \<le> 0 \<or> cs \<le> 0 \<Longrightarrow> area_cells fr fc rs cs = []"
  by (auto simp: area_cells_def py_range_def)

text \<open>
  Claim C3. \<open>isAreaEmpty\<close> answers false when the rectangle leaves the grid or has a negative
  origin; otherwise it answers true exactly when every cell of the rectangle is owned by
  an unfilled tile.
\<close>

theorem isAreaEmpty_spec:
  assumes "shape_ok s"
  shows "isAreaEmpty s fr fc rs cs =
           Inr (\<not> (fr + rs > row_number s \<or> fc + cs > column_number s \<or> fr < 0 \<or> fc < 0) \<and>
                (\<forall>r c. fr \<le> r \<and> r < fr + rs \<and> fc \<le> c \<and> c < fc + cs
                        \<longrightarrow> \<not> filled (tile_at s r c)))"
  using assms by (rule isAreaEmpty_in_grid)

theorem isAreaEmpty_spec_witness:
  "shape_ok (snd (init 2 3 :: py_error option \<times> nat layout)) \<and>
   isAreaEmpty (snd (init 2 3 :: py_error option \<times> nat layout)) 0 1 2 2 = Inr True \<and>
   \<not> filled (tile_at (snd (init 2 3 :: py_error option \<times> nat layout)) 1 2)"
proof -
  have h: "shape_ok (snd (init 2 3 :: py_error option \<times> nat layout))"
    by code_simp
  have a: "isAreaEmpty (snd (init 2 3 :: py_error option \<times> nat layout)) 0 1 2 2 = Inr True"
    by code_simp
  show ?thesis using h a isAreaEmpty_spec [OF h, of 0 1 2 2] by simp
qed

text \<open>
  Claim C10. A rectangle with a zero row span or a zero column span that passes the bounds
  test is reported empty, since the check ranges over no cell at all; this includes an
  origin on the far edge of the grid.
\<close>

theorem isAreaEmpty_zero_area:
  assumes "rs = 0 \<or> cs = 0"
    and "0 \<le> fr" and "0 \<le> fc"
    and "fr + rs \<le> row_number s" and "fc + cs \<le> column_number s"
  shows "isAreaEmpty s fr fc rs cs = Inr True"
proof -
  have "area_cells fr fc rs cs = []"
    using assms(1) by (intro area_cells_empty) auto
  then show ?thesis using assms(2-) by (simp add: isAreaEmpty_def)
qed

theorem isAreaEmpty_zero_area_witness:
  "isAreaEmpty (snd (init 2 3 :: py_error option \<times> nat layout)) 2 0 0 1 = Inr True \<and>
   row_number (snd (init 2 3 :: py_error option \<times> nat layout)) = 2"
proof -
  have r: "row_number (snd (init 2 3 :: py_error option \<times> nat layout)) = 2"
    by code_simp
  have c: "column_number (snd (init 2 3 :: py_error option \<times> nat layout)) = 3"
    by code_simp
  show ?thesis
    using isAreaEmpty_zero_area [of 0 1 2 0 "snd (init 2 3 :: py_error option \<times> nat layout)"] r c
    by simp
qed

section \<open>Effect of the loops on the map\<close>

lemma in_grid_upd [simp]:
  "in_grid (s\<lparr>tile_map := m\<rparr>) r c = in_grid s r c"
  "in_grid (s\<lparr>heap := h\<rparr>) r c = in_grid s r c"
  "in_grid (s\<lparr>couple_widget := ws\<rparr>) r c = in_grid s r c"
  "in_grid (s\<lparr>couple_tile := ts\<rparr>) r c = in_grid s r c"
  "in_grid (s\<lparr>tileResized := ev\<rparr>) r c = in_grid s r c"
  by (simp_all add: in_grid_def)

lemma owner_upd [simp]:
  "owner (s\<lparr>heap := h\<rparr>) r c = owner s r c"
  "owner (s\<lparr>couple_widget := ws\<rparr>) r c = owner s r c"
  "owner (s\<lparr>couple_tile := ts\<rparr>) r c = owner s r c"
  "owner (s\<lparr>tileResized := ev\<rparr>) r c = owner s r c"
  by (simp_all add: owner_def)

lemma shape_ok_upd [simp]:
  "shape_ok (s\<lparr>heap := h\<rparr>) = shape_ok s"
  "shape_ok (s\<lparr>couple_widget := ws\<rparr>) = shape_ok s"
  "shape_ok (s\<lparr>couple_tile := ts\<rparr>) = shape_ok s"
  "shape_ok (s\<lparr>tileResized := ev\<rparr>) = shape_ok s"
  by (simp_all add: shape_ok_def)

lemma row_length:
  assumes "shape_ok s" "0 \<le> r" "r < row_number s"
  shows "length (tile_map s ! nat r) = nat (column_number s)"
proof -
  have "tile_map s ! nat r \<in> set (tile_map s)"
    using assms by (intro nth_mem) (auto simp: shape_ok_def)
  then show ?thesis using assms(1) by (simp add: shape_ok_def)
qed

lemma map_set_in_grid:
  assumes "shape_ok s" "in_grid s r c"
  shows "map_set (tile_map s) r c v =
           Inr ((tile_map s)[nat r := (tile_map s ! nat r)[nat c := v]])"
proof -
  have r: "py_index (length (tile_map s)) r = Some (nat r)"
    using assms by (intro py_index_in_range) (auto simp: shape_ok_def in_grid_def)
  have "length (tile_map s ! nat r) = nat (column_number s)"
    using assms by (intro row_length) (auto simp: in_grid_def)
  then have c: "py_index (length (tile_map s ! nat r)) c = Some (nat c)"
    using assms by (intro py_index_in_range) (auto simp: in_grid_def)
  show ?thesis by (simp add: map_set_def r c)
qed

lemma shape_ok_set:
  assumes "shape_ok s"
  shows "shape_ok (s\<lparr>tile_map := (tile_map s)[i := (tile_map s ! i)[j := v]]\<rparr>)"
proof -
  have "\<forall>row \<in> set ((tile_map s)[i := (tile_map s ! i)[j := v]]). length row = nat (column_number s)"
  proof
    fix row assume "row \<in> set ((tile_map s)[i := (tile_map s ! i)[j := v]])"
    then have "row \<in> insert ((tile_map s ! i)[j := v]) (set (tile_map s))"
      using set_update_subset_insert by fastforce
    moreover have "i < length (tile_map s) \<Longrightarrow> length (tile_map s ! i) = nat (column_number s)"
      using assms by (simp add: shape_ok_def)
    moreover have "\<not> i < length (tile_map s) \<Longrightarrow> (tile_map s)[i := (tile_map s ! i)[j := v]] = tile_map s"
      by (simp add: list_update_beyond)
    ultimately show "length row = nat (column_number s)"
      using assms \<open>row \<in> set ((tile_map s)[i := (tile_map s ! i)[j := v]])\<close>
      by (cases "i < length (tile_map s)") (auto simp: shape_ok_def)
  qed
  then show ?thesis using assms by (simp add: shape_ok_def)
qed

lemma owner_set:
  assumes "shape_ok s" "in_grid s r c" "in_grid s r' c'"
  shows "owner (s\<lparr>tile_map := (tile_map s)[nat r := (tile_map s ! nat r)[nat c := v]]\<rparr>) r' c' =
           (if r' = r \<and> c' = c then v else owner s r' c')"
proof -
  have lr: "nat r < length (tile_map s)" "nat r' < length (tile_map s)"
    using assms by (auto simp: shape_ok_def in_grid_def)
  have lc: "nat c < length (tile_map s ! nat r)"
    using assms row_length[of s r] by (auto simp: in_grid_def)
  have eqr: "nat r' = nat r \<longleftrightarrow> r' = r" and eqc: "nat c' = nat c \<longleftrightarrow> c' = c"
    using assms by (auto simp: in_grid_def)
  show ?thesis
    using lr lc eqr eqc by (auto simp: owner_def nth_list_update)
qed

text \<open>Effect of the assignment loops.\<close>

lemma merge_loop_effect:
  assumes "shape_ok s" "\<forall>(r, c) \<in> set cells. in_grid s r c"
  shows "\<exists>m. merge_loop s t cells = (None, s\<lparr>tile_map := m\<rparr>) \<and>
             shape_ok (s\<lparr>tile_map := m\<rparr>) \<and>
             (\<forall>r c. in_grid s r c \<longrightarrow>
                owner (s\<lparr>tile_map := m\<rparr>) r c = (if (r, c) \<in> set cells then t else owner s r c))"
  using assms
proof (induction cells arbitrary: s)
  case Nil
  have "s\<lparr>tile_map := tile_map s\<rparr> = s" by simp
  then show ?case using Nil by (intro exI[of _ "tile_map s"]) simp
next
  case (Cons x cells)
  obtain r c where x: "x = (r, c)" by (cases x)
  have g: "in_grid s r c" using Cons.prems x by simp
  let ?m1 = "(tile_map s)[nat r := (tile_map s ! nat r)[nat c := t]]"
  let ?s1 = "s\<lparr>tile_map := ?m1\<rparr>"
  have get: "map_get (tile_map s) r c = Inr (owner s r c)"
    using Cons.prems(1) g by (rule map_get_in_grid)
  have set: "map_set (tile_map s) r c t = Inr ?m1"
    using Cons.prems(1) g by (rule map_set_in_grid)
  have sh1: "shape_ok ?s1" using Cons.prems(1) by (rule shape_ok_set)
  have in1: "\<forall>(r, c) \<in> set cells. in_grid ?s1 r c" using Cons.prems(2) by auto
  from Cons.IH[OF sh1 in1] obtain m where
    m: "merge_loop ?s1 t cells = (None, ?s1\<lparr>tile_map := m\<rparr>)"
       "shape_ok (?s1\<lparr>tile_map := m\<rparr>)"
       "\<forall>r c. in_grid ?s1 r c \<longrightarrow>
          owner (?s1\<lparr>tile_map := m\<rparr>) r c = (if (r, c) \<in> set cells then t else owner ?s1 r c)"
    by blast
  have e: "?s1\<lparr>tile_map := m\<rparr> = s\<lparr>tile_map := m\<rparr>" by simp
  have "merge_loop s t (x # cells) = (None, s\<lparr>tile_map := m\<rparr>)"
    using m(1) by (simp add: x get set)
  moreover have "shape_ok (s\<lparr>tile_map := m\<rparr>)" using m(2) by simp
  moreover have "\<forall>r' c'. in_grid s r' c' \<longrightarrow>
      owner (s\<lparr>tile_map := m\<rparr>) r' c' = (if (r', c') \<in> set (x # cells) then t else owner s r' c')"
  proof (intro allI impI)
    fix r' c' assume g': "in_grid s r' c'"
    have "owner (s\<lparr>tile_map := m\<rparr>) r' c' = (if (r', c') \<in> set cells then t else owner ?s1 r' c')"
      using m(3) g' e by simp
    moreover have "owner ?s1 r' c' = (if r' = r \<and> c' = c then t else owner s r' c')"
      using Cons.prems(1) g g' by (rule owner_set)
    ultimately show "owner (s\<lparr>tile_map := m\<rparr>) r' c' = (if (r', c') \<in> set (x # cells) then t else owner s r' c')"
      by (auto simp: x)
  qed
  ultimately show ?case by blast
qed


lemma area_cells_unit: "area_cells r c 1 1 = [(r, c)]"
  by (simp add: area_cells_def py_range_def)

lemma createTile_unit:
  assumes "shape_ok s" "in_grid s r c"
  shows "createTile s r c 1 1 True =
           (Inr (length (heap s)),
            s\<lparr>tile_map := (tile_map s)[nat r := (tile_map s ! nat r)[nat c := length (heap s)]],
              heap := heap s @ [Tile r c 1 1]\<rparr>)"
proof -
  let ?s1 = "s\<lparr>heap := heap s @ [Tile r c 1 1]\<rparr>"
  have "map_set (tile_map ?s1) r c (length (heap s)) =
          Inr ((tile_map ?s1)[nat r := (tile_map ?s1 ! nat r)[nat c := length (heap s)]])"
    using assms by (intro map_set_in_grid) simp_all
  then show ?thesis by (simp add: createTile_def area_cells_unit Let_def)
qed

lemma split_loop_effect:
  assumes "shape_ok s" "\<forall>(r, c) \<in> set cells. in_grid s r c"
  shows "\<exists>m h. split_loop s cells = (None, s\<lparr>tile_map := m, heap := heap s @ h\<rparr>) \<and>
             shape_ok (s\<lparr>tile_map := m\<rparr>) \<and>
             (\<forall>r c. in_grid s r c \<longrightarrow> (r, c) \<in> set cells \<longrightarrow>
                 length (heap s) \<le> owner (s\<lparr>tile_map := m\<rparr>) r c \<and>
                 owner (s\<lparr>tile_map := m\<rparr>) r c < length (heap s) + length h \<and>
                 (heap s @ h) ! owner (s\<lparr>tile_map := m\<rparr>) r c = Tile r c 1 1) \<and>
             (\<forall>r c. in_grid s r c \<longrightarrow> (r, c) \<notin> set cells \<longrightarrow>
                 owner (s\<lparr>tile_map := m\<rparr>) r c = owner s r c)"
  using assms
proof (induction cells arbitrary: s)
  case Nil
  have "s\<lparr>tile_map := tile_map s, heap := heap s @ []\<rparr> = s" by simp
  then show ?case using Nil by (intro exI[of _ "tile_map s"] exI[of _ "[]"]) simp
next
  case (Cons x cells)
  obtain r c where x: "x = (r, c)" by (cases x)
  have g: "in_grid s r c" using Cons.prems x by simp
  let ?m1 = "(tile_map s)[nat r := (tile_map s ! nat r)[nat c := length (heap s)]]"
  let ?s1 = "s\<lparr>tile_map := ?m1, heap := heap s @ [Tile r c 1 1]\<rparr>"
  have ct: "createTile s r c 1 1 True = (Inr (length (heap s)), ?s1)"
    using Cons.prems(1) g by (rule createTile_unit)
  have "shape_ok (s\<lparr>tile_map := ?m1\<rparr>)" using Cons.prems(1) by (rule shape_ok_set)
  then have sh1: "shape_ok ?s1" by simp
  have in1: "\<forall>(r, c) \<in> set cells. in_grid ?s1 r c" using Cons.prems(2) by auto
  from Cons.IH[OF sh1 in1] obtain m h where
    m1: "split_loop ?s1 cells = (None, ?s1\<lparr>tile_map := m, heap := heap ?s1 @ h\<rparr>)" and
    m2: "shape_ok (?s1\<lparr>tile_map := m\<rparr>)" and
    m3: "\<forall>r c. in_grid ?s1 r c \<longrightarrow> (r, c) \<in> set cells \<longrightarrow>
           length (heap ?s1) \<le> owner (?s1\<lparr>tile_map := m\<rparr>) r c \<and>
           owner (?s1\<lparr>tile_map := m\<rparr>) r c < length (heap ?s1) + length h \<and>
           (heap ?s1 @ h) ! owner (?s1\<lparr>tile_map := m\<rparr>) r c = Tile r c 1 1" and
    m4: "\<forall>r c. in_grid ?s1 r c \<longrightarrow> (r, c) \<notin> set cells \<longrightarrow>
           owner (?s1\<lparr>tile_map := m\<rparr>) r c = owner ?s1 r c"
    by blast
  let ?h = "Tile r c 1 1 # h"
  have e: "?s1\<lparr>tile_map := m, heap := heap ?s1 @ h\<rparr> = s\<lparr>tile_map := m, heap := heap s @ ?h\<rparr>"
    by simp
  have o: "\<And>r' c'. owner (?s1\<lparr>tile_map := m\<rparr>) r' c' = owner (s\<lparr>tile_map := m\<rparr>) r' c'"
    by (simp add: owner_def)
  have "split_loop s (x # cells) = (None, s\<lparr>tile_map := m, heap := heap s @ ?h\<rparr>)"
    using m1 e by (simp add: x ct)
  moreover have "shape_ok (s\<lparr>tile_map := m\<rparr>)" using m2 by (simp add: shape_ok_def)
  moreover have "\<forall>r' c'. in_grid s r' c' \<longrightarrow> (r', c') \<in> set (x # cells) \<longrightarrow>
            length (heap s) \<le> owner (s\<lparr>tile_map := m\<rparr>) r' c' \<and>
            owner (s\<lparr>tile_map := m\<rparr>) r' c' < length (heap s) + length ?h \<and>
            (heap s @ ?h) ! owner (s\<lparr>tile_map := m\<rparr>) r' c' = Tile r' c' 1 1"
  proof (intro allI impI)
    fix r' c' assume g': "in_grid s r' c'" and mem: "(r', c') \<in> set (x # cells)"
    have o1: "owner ?s1 r' c' = (if r' = r \<and> c' = c then length (heap s) else owner s r' c')"
      using owner_set[OF Cons.prems(1) g g', of "length (heap s)"] by simp
    show "length (heap s) \<le> owner (s\<lparr>tile_map := m\<rparr>) r' c' \<and>
            owner (s\<lparr>tile_map := m\<rparr>) r' c' < length (heap s) + length ?h \<and>
            (heap s @ ?h) ! owner (s\<lparr>tile_map := m\<rparr>) r' c' = Tile r' c' 1 1"
    proof (cases "(r', c') \<in> set cells")
      case True
      then show ?thesis using m3[rule_format, of r' c'] g' o by simp
    next
      case False
      then have "owner (s\<lparr>tile_map := m\<rparr>) r' c' = owner ?s1 r' c'"
        using m4[rule_format, of r' c'] g' o by simp
      moreover have "r' = r \<and> c' = c" using False mem x by simp
      ultimately show ?thesis using o1 by (simp add: nth_append)
    qed
  qed
  moreover have "\<forall>r' c'. in_grid s r' c' \<longrightarrow> (r', c') \<notin> set (x # cells) \<longrightarrow>
            owner (s\<lparr>tile_map := m\<rparr>) r' c' = owner s r' c'"
  proof (intro allI impI)
    fix r' c' assume g': "in_grid s r' c'" and mem: "(r', c') \<notin> set (x # cells)"
    have o1: "owner ?s1 r' c' = (if r' = r \<and> c' = c then length (heap s) else owner s r' c')"
      using owner_set[OF Cons.prems(1) g g', of "length (heap s)"] by simp
    have "owner (s\<lparr>tile_map := m\<rparr>) r' c' = owner ?s1 r' c'"
      using m4[rule_format, of r' c'] g' o mem by simp
    then show "owner (s\<lparr>tile_map := m\<rparr>) r' c' = owner s r' c'"
      using o1 mem x by auto
  qed
  ultimately show ?case by blast
qed


section \<open>Steps that keep the grid invariant\<close>

lemma set_grid_cells: "(r, c) \<in> set (grid_cells s) \<longleftrightarrow> in_grid s r c"
  by (auto simp: grid_cells_def set_area_cells in_grid_def)

lemma set_tile_cells: "(r, c) \<in> set (tile_cells t) \<longleftrightarrow> covers t r c"
  by (auto simp: tile_cells_def set_area_cells covers_def)

lemma ball_grid_cells:
  "(\<forall>(r, c) \<in> set (grid_cells s). P r c) \<longleftrightarrow> (\<forall>r c. in_grid s r c \<longrightarrow> P r c)"
proof
  assume a: "\<forall>(r, c) \<in> set (grid_cells s). P r c"
  show "\<forall>r c. in_grid s r c \<longrightarrow> P r c"
  proof (intro allI impI)
    fix r c assume "in_grid s r c"
    then have "(r, c) \<in> set (grid_cells s)" by (simp add: set_grid_cells)
    with a have "case (r, c) of (r, c) \<Rightarrow> P r c" by (rule bspec)
    then show "P r c" by simp
  qed
next
  assume b: "\<forall>r c. in_grid s r c \<longrightarrow> P r c"
  show "\<forall>(r, c) \<in> set (grid_cells s). P r c"
  proof
    fix x assume x: "x \<in> set (grid_cells s)"
    obtain r c where rc: "x = (r, c)" by (cases x)
    then have "in_grid s r c" using x by (simp add: set_grid_cells)
    then show "case x of (r, c) \<Rightarrow> P r c" using b rc by simp
  qed
qed

lemma ball_tile_cells:
  "(\<forall>(r, c) \<in> set (tile_cells t). P r c) \<longleftrightarrow> (\<forall>r c. covers t r c \<longrightarrow> P r c)"
proof
  assume a: "\<forall>(r, c) \<in> set (tile_cells t). P r c"
  show "\<forall>r c. covers t r c \<longrightarrow> P r c"
  proof (intro allI impI)
    fix r c assume "covers t r c"
    then have "(r, c) \<in> set (tile_cells t)" by (simp add: set_tile_cells)
    with a have "case (r, c) of (r, c) \<Rightarrow> P r c" by (rule bspec)
    then show "P r c" by simp
  qed
next
  assume b: "\<forall>r c. covers t r c \<longrightarrow> P r c"
  show "\<forall>(r, c) \<in> set (tile_cells t). P r c"
  proof
    fix x assume x: "x \<in> set (tile_cells t)"
    obtain r c where rc: "x = (r, c)" by (cases x)
    then have "covers t r c" using x by (simp add: set_tile_cells)
    then show "case x of (r, c) \<Rightarrow> P r c" using b rc by simp
  qed
qed

lemma partition_ok_iff:
  "partition_ok s \<longleftrightarrow>
     (\<forall>r c. in_grid s r c \<longrightarrow>
        owner s r c < length (heap s) \<and> covers (tile_at s r c) r c \<and>
        (\<forall>r' c'. covers (tile_at s r c) r' c' \<longrightarrow> in_grid s r' c' \<and> owner s r' c' = owner s r c))"
  unfolding partition_ok_def ball_grid_cells ball_tile_cells ..

lemma units_ok_iff:
  "units_ok s \<longleftrightarrow>
     (\<forall>r c. in_grid s r c \<longrightarrow>
        filled (tile_at s r c) \<or> (row_span (tile_at s r c) = 1 \<and> column_span (tile_at s r c) = 1))"
  unfolding units_ok_def ball_grid_cells ..

lemma registry_ok_iff:
  "registry_ok s \<longleftrightarrow>
     length (couple_widget s) = length (couple_tile s) \<and>
     distinct (couple_widget s) \<and>
     distinct (couple_tile s) \<and>
     (\<forall>t \<in> set (couple_tile s).
        t < length (heap s) \<and> filled (heap s ! t) \<and>
        in_grid s (from_row (heap s ! t)) (from_column (heap s ! t)) \<and>
        owner s (from_row (heap s ! t)) (from_column (heap s ! t)) = t) \<and>
     (\<forall>r c. in_grid s r c \<longrightarrow> filled (tile_at s r c) \<longrightarrow> owner s r c \<in> set (couple_tile s))"
  unfolding registry_ok_def ball_grid_cells ..

lemma partition_okD:
  assumes "partition_ok s" "in_grid s r c"
  shows "owner s r c < length (heap s)" and "covers (tile_at s r c) r c"
  using assms unfolding partition_ok_iff by blast+

lemma partition_ok_cells:
  assumes "partition_ok s" "in_grid s r c" "covers (tile_at s r c) r' c'"
  shows "in_grid s r' c' \<and> owner s r' c' = owner s r c"
  using assms unfolding partition_ok_iff by blast

lemma units_okD:
  assumes "units_ok s" "in_grid s r c" "\<not> filled (tile_at s r c)"
  shows "row_span (tile_at s r c) = 1 \<and> column_span (tile_at s r c) = 1"
  using assms unfolding units_ok_iff by blast

lemma grid_invD:
  assumes "grid_inv s"
  shows "shape_ok s" "partition_ok s" "units_ok s"
  using assms by (simp_all add: grid_inv_def)

lemma covers_unit:
  "row_span t = 1 \<Longrightarrow> column_span t = 1 \<Longrightarrow> covers t r c \<Longrightarrow> covers t r' c' \<Longrightarrow> r' = r \<and> c' = c"
  by (auto simp: covers_def)

lemma covers_Tile_unit: "covers (Tile r c 1 1) r' c' \<longleftrightarrow> r' = r \<and> c' = c"
  by (auto simp: covers_def Tile_def)

text \<open>Merging a set of free cells into a referenced tile keeps the grid invariant.\<close>

lemma grid_merge:
  assumes gi: "grid_inv s"
    and dims: "row_number s' = row_number s" "column_number s' = column_number s"
    and sh: "shape_ok s'"
    and len: "length (heap s') = length (heap s)"
    and t0: "in_grid s r0 c0" "owner s r0 c0 = t"
    and A: "\<And>r c. (r, c) \<in> A \<Longrightarrow> in_grid s r c \<and> (owner s r c = t \<or> \<not> filled (tile_at s r c))"
    and own: "\<And>r c. in_grid s r c \<Longrightarrow> owner s' r c = (if (r, c) \<in> A then t else owner s r c)"
    and other: "\<And>u. u \<noteq> t \<Longrightarrow> u < length (heap s) \<Longrightarrow> heap s' ! u = heap s ! u"
    and cov: "\<And>r c. covers (heap s' ! t) r c \<longleftrightarrow> (r, c) \<in> A \<or> covers (heap s ! t) r c"
    and fil: "filled (heap s' ! t)"
  shows "grid_inv s'"
proof -
  have p: "\<And>r c. in_grid s r c \<Longrightarrow> owner s r c < length (heap s) \<and> covers (tile_at s r c) r c"
    using partition_okD[OF grid_invD(2)[OF gi]] by simp
  have q: "\<And>r c r' c'. in_grid s r c \<Longrightarrow> covers (tile_at s r c) r' c' \<Longrightarrow>
              in_grid s r' c' \<and> owner s r' c' = owner s r c"
    using partition_ok_cells[OF grid_invD(2)[OF gi]] .
  have u: "\<And>r c. in_grid s r c \<Longrightarrow> \<not> filled (tile_at s r c) \<Longrightarrow>
              row_span (tile_at s r c) = 1 \<and> column_span (tile_at s r c) = 1"
    using units_okD[OF grid_invD(3)[OF gi]] .
  have ig: "\<And>r c. in_grid s' r c = in_grid s r c" using dims by (simp add: in_grid_def)
  have tl: "t < length (heap s)" using p[OF t0(1)] t0(2) by simp
  have trect: "\<And>r c. covers (heap s ! t) r c \<Longrightarrow> in_grid s r c \<and> owner s r c = t"
    using q[OF t0(1)] t0(2) by (simp add: tile_at_def)
  text \<open>cells that end up in the tile\<close>
  have in_t: "\<And>r c. in_grid s r c \<Longrightarrow> owner s' r c = t \<Longrightarrow> covers (heap s' ! t) r c"
  proof -
    fix r c assume g: "in_grid s r c" and o: "owner s' r c = t"
    show "covers (heap s' ! t) r c"
    proof (cases "(r, c) \<in> A")
      case True then show ?thesis by (simp add: cov)
    next
      case False
      then have "owner s r c = t" using own[OF g] o by simp
      then have "covers (heap s ! t) r c" using p[OF g] by (simp add: tile_at_def)
      then show ?thesis by (simp add: cov)
    qed
  qed
  have t_cells: "\<And>r c. covers (heap s' ! t) r c \<Longrightarrow> in_grid s r c \<and> owner s' r c = t"
  proof -
    fix r c assume "covers (heap s' ! t) r c"
    then consider "(r, c) \<in> A" | "(r, c) \<notin> A" "covers (heap s ! t) r c" using cov by blast
    then show "in_grid s r c \<and> owner s' r c = t"
    proof cases
      case 1 then show ?thesis using A[OF 1] own by simp
    next
      case 2 then show ?thesis using trect[OF 2(2)] own by simp
    qed
  qed
  text \<open>the other tiles\<close>
  have oth: "\<And>r c. in_grid s r c \<Longrightarrow> owner s' r c \<noteq> t \<Longrightarrow>
      owner s' r c = owner s r c \<and> (r, c) \<notin> A \<and> heap s' ! owner s r c = heap s ! owner s r c"
  proof -
    fix r c assume g: "in_grid s r c" and o: "owner s' r c \<noteq> t"
    have nA: "(r, c) \<notin> A" using own[OF g] o by auto
    then have e: "owner s' r c = owner s r c" using own[OF g] by simp
    then show "owner s' r c = owner s r c \<and> (r, c) \<notin> A \<and> heap s' ! owner s r c = heap s ! owner s r c"
      using nA other[of "owner s r c"] o p[OF g] by simp
  qed
  have oth_cells: "\<And>r c r' c'. in_grid s r c \<Longrightarrow> owner s' r c \<noteq> t \<Longrightarrow>
      covers (heap s ! owner s r c) r' c' \<Longrightarrow> in_grid s r' c' \<and> owner s' r' c' = owner s r c"
  proof -
    fix r c r' c' assume g: "in_grid s r c" and o: "owner s' r c \<noteq> t"
      and c: "covers (heap s ! owner s r c) r' c'"
    have e: "owner s' r c = owner s r c" "(r, c) \<notin> A" using oth[OF g o] by simp_all
    have g': "in_grid s r' c'" and o': "owner s r' c' = owner s r c"
      using q[OF g] c by (simp_all add: tile_at_def)
    have "(r', c') \<notin> A"
    proof
      assume m: "(r', c') \<in> A"
      then have "\<not> filled (tile_at s r' c')" using A[OF m] o' e o by auto
      then have "row_span (tile_at s r' c') = 1 \<and> column_span (tile_at s r' c') = 1"
        using u[OF g'] by simp
      moreover have "covers (tile_at s r' c') r' c'" using p[OF g'] by simp
      moreover have "covers (tile_at s r' c') r c" using p[OF g] o' by (simp add: tile_at_def)
      ultimately have "r = r' \<and> c = c'" using covers_unit by blast
      then show False using m e(2) by simp
    qed
    then show "in_grid s r' c' \<and> owner s' r' c' = owner s r c" using g' o' own[OF g'] by simp
  qed
  have part: "partition_ok s'"
    unfolding partition_ok_iff
  proof (intro allI impI)
    fix r c assume "in_grid s' r c"
    then have g: "in_grid s r c" by (simp add: ig)
    show "owner s' r c < length (heap s') \<and> covers (tile_at s' r c) r c \<and>
        (\<forall>r' c'. covers (tile_at s' r c) r' c' \<longrightarrow> in_grid s' r' c' \<and> owner s' r' c' = owner s' r c)"
    proof (cases "owner s' r c = t")
      case True
      then show ?thesis using in_t[OF g True] t_cells tl by (simp add: tile_at_def ig len)
    next
      case False
      have e: "owner s' r c = owner s r c" "heap s' ! owner s r c = heap s ! owner s r c"
        using oth[OF g False] by simp_all
      show ?thesis
        using p[OF g] oth_cells[OF g False] by (simp add: tile_at_def e ig len)
    qed
  qed
  have units: "units_ok s'"
    unfolding units_ok_iff
  proof (intro allI impI)
    fix r c assume "in_grid s' r c"
    then have g: "in_grid s r c" by (simp add: ig)
    show "filled (tile_at s' r c) \<or> (row_span (tile_at s' r c) = 1 \<and> column_span (tile_at s' r c) = 1)"
    proof (cases "owner s' r c = t")
      case True
      then show ?thesis using fil by (simp add: tile_at_def)
    next
      case False
      have e: "owner s' r c = owner s r c" "heap s' ! owner s r c = heap s ! owner s r c"
        using oth[OF g False] by simp_all
      show ?thesis using u[OF g] by (auto simp: tile_at_def e)
    qed
  qed
  show ?thesis using sh part units by (simp add: grid_inv_def)
qed

text \<open>Replacing a set of cells by new unit tiles keeps the grid invariant.\<close>

lemma grid_split:
  assumes gi: "grid_inv s"
    and dims: "row_number s' = row_number s" "column_number s' = column_number s"
    and sh: "shape_ok s'"
    and fresh: "\<And>r c. in_grid s r c \<Longrightarrow> (r, c) \<in> B \<Longrightarrow>
                  owner s' r c < length (heap s') \<and> heap s' ! owner s' r c = Tile r c 1 1"
    and keep: "\<And>r c. in_grid s r c \<Longrightarrow> (r, c) \<notin> B \<Longrightarrow> owner s' r c = owner s r c"
    and len: "length (heap s) \<le> length (heap s')"
    and tiles: "\<And>r c. in_grid s r c \<Longrightarrow> (r, c) \<notin> B \<Longrightarrow>
                  filled (heap s' ! owner s r c) = filled (heap s ! owner s r c) \<and>
                  (\<not> filled (heap s ! owner s r c) \<longrightarrow> heap s' ! owner s r c = heap s ! owner s r c) \<and>
                  (\<forall>r' c'. covers (heap s' ! owner s r c) r' c' \<longleftrightarrow>
                            covers (heap s ! owner s r c) r' c' \<and> (r', c') \<notin> B)"
  shows "grid_inv s'"
proof -
  have p: "\<And>r c. in_grid s r c \<Longrightarrow> owner s r c < length (heap s) \<and> covers (tile_at s r c) r c"
    using partition_okD[OF grid_invD(2)[OF gi]] by simp
  have q: "\<And>r c r' c'. in_grid s r c \<Longrightarrow> covers (tile_at s r c) r' c' \<Longrightarrow>
              in_grid s r' c' \<and> owner s r' c' = owner s r c"
    using partition_ok_cells[OF grid_invD(2)[OF gi]] .
  have u: "\<And>r c. in_grid s r c \<Longrightarrow> \<not> filled (tile_at s r c) \<Longrightarrow>
              row_span (tile_at s r c) = 1 \<and> column_span (tile_at s r c) = 1"
    using units_okD[OF grid_invD(3)[OF gi]] .
  have ig: "\<And>r c. in_grid s' r c = in_grid s r c" using dims by (simp add: in_grid_def)
  have part: "partition_ok s'"
    unfolding partition_ok_iff
  proof (intro allI impI)
    fix r c assume "in_grid s' r c"
    then have g: "in_grid s r c" by (simp add: ig)
    show "owner s' r c < length (heap s') \<and> covers (tile_at s' r c) r c \<and>
        (\<forall>r' c'. covers (tile_at s' r c) r' c' \<longrightarrow> in_grid s' r' c' \<and> owner s' r' c' = owner s' r c)"
    proof (cases "(r, c) \<in> B")
      case True
      then show ?thesis using fresh[OF g True] g by (simp add: tile_at_def covers_Tile_unit ig)
    next
      case False
      have e: "owner s' r c = owner s r c" using keep[OF g False] .
      have c1: "covers (heap s' ! owner s r c) r c"
        using tiles[OF g False] p[OF g] False by (simp add: tile_at_def)
      have c2: "\<And>r' c'. covers (heap s' ! owner s r c) r' c' \<Longrightarrow>
                 in_grid s r' c' \<and> owner s' r' c' = owner s r c"
      proof -
        fix r' c' assume "covers (heap s' ! owner s r c) r' c'"
        then have a: "covers (heap s ! owner s r c) r' c'" and b: "(r', c') \<notin> B"
          using tiles[OF g False] by simp_all
        have "in_grid s r' c'" "owner s r' c' = owner s r c"
          using q[OF g] a by (simp_all add: tile_at_def)
        then show "in_grid s r' c' \<and> owner s' r' c' = owner s r c" using keep b by simp
      qed
      show ?thesis using p[OF g] len c1 c2 by (simp add: tile_at_def e ig)
    qed
  qed
  have units: "units_ok s'"
    unfolding units_ok_iff
  proof (intro allI impI)
    fix r c assume "in_grid s' r c"
    then have g: "in_grid s r c" by (simp add: ig)
    show "filled (tile_at s' r c) \<or> (row_span (tile_at s' r c) = 1 \<and> column_span (tile_at s' r c) = 1)"
    proof (cases "(r, c) \<in> B")
      case True
      then show ?thesis using fresh[OF g True] by (simp add: tile_at_def Tile_def)
    next
      case False
      have e: "owner s' r c = owner s r c" using keep[OF g False] .
      show ?thesis using tiles[OF g False] u[OF g] by (auto simp: tile_at_def e)
    qed
  qed
  show ?thesis using sh part units by (simp add: grid_inv_def)
qed

section \<open>Placing a widget\<close>

lemma py_range_pos: "1 \<le> n \<Longrightarrow> py_range n = 0 # map int [1..<nat n]"
  by (simp add: py_range_def upt_conv_Cons)

lemma area_cells_hd:
  assumes "1 \<le> rs" "1 \<le> cs"
  shows "area_cells fr fc rs cs = (fr, fc) # tl (area_cells fr fc rs cs)"
  using assms by (simp add: area_cells_def py_range_pos)

lemma unit_tile_at:
  assumes "grid_inv s" "in_grid s r c" "\<not> filled (tile_at s r c)"
  shows "from_row (tile_at s r c) = r" "from_column (tile_at s r c) = c"
        "row_span (tile_at s r c) = 1" "column_span (tile_at s r c) = 1"
proof -
  have u: "row_span (tile_at s r c) = 1 \<and> column_span (tile_at s r c) = 1"
    using units_okD[OF grid_invD(3)[OF assms(1)] assms(2,3)] .
  have c: "covers (tile_at s r c) r c"
    using partition_okD(2)[OF grid_invD(2)[OF assms(1)] assms(2)] .
  show "from_row (tile_at s r c) = r" "from_column (tile_at s r c) = c"
        "row_span (tile_at s r c) = 1" "column_span (tile_at s r c) = 1"
    using u c by (auto simp: covers_def)
qed

lemma isAreaEmpty_TrueD:
  assumes "shape_ok s" "isAreaEmpty s fr fc rs cs = Inr True"
  shows "0 \<le> fr" "0 \<le> fc" "fr + rs \<le> row_number s" "fc + cs \<le> column_number s"
    and "\<And>r c. fr \<le> r \<Longrightarrow> r < fr + rs \<Longrightarrow> fc \<le> c \<Longrightarrow> c < fc + cs \<Longrightarrow> \<not> filled (tile_at s r c)"
  using assms(2) unfolding isAreaEmpty_in_grid[OF assms(1)] by auto

lemma addWidget_effect:
  assumes i: "grid_inv s"
    and w: "w \<notin> set (couple_widget s)"
    and e: "isAreaEmpty s fr fc rs cs = Inr True"
    and sp: "1 \<le> rs" "1 \<le> cs"
  shows "\<exists>m. addWidget s w fr fc rs cs =
            (None, s\<lparr>tile_map := m,
                     heap := (heap s)[owner s fr fc :=
                                tile_addWidget w (updateSize fr fc rs cs (heap s ! owner s fr fc))],
                     couple_widget := couple_widget s @ [w],
                     couple_tile := couple_tile s @ [owner s fr fc]\<rparr>) \<and>
            shape_ok (s\<lparr>tile_map := m\<rparr>) \<and>
            (\<forall>r c. in_grid s r c \<longrightarrow>
               owner (s\<lparr>tile_map := m\<rparr>) r c =
                 (if fr \<le> r \<and> r < fr + rs \<and> fc \<le> c \<and> c < fc + cs
                  then owner s fr fc else owner s r c))"
proof -
  let ?t = "owner s fr fc"
  let ?cells = "area_cells fr fc rs cs"
  have sh: "shape_ok s" using i by (rule grid_invD)
  note b = isAreaEmpty_TrueD[OF sh e]
  have g0: "in_grid s fr fc" using b(1-4) sp by (simp add: in_grid_def)
  have get: "map_get (tile_map s) fr fc = Inr ?t" using sh g0 by (rule map_get_in_grid)
  have nf: "\<not> filled (tile_at s fr fc)" using b(5)[of fr fc] sp by simp
  note ut = unit_tile_at[OF i g0 nf]
  have tl: "?t < length (heap s)" using partition_okD(1)[OF grid_invD(2)[OF i] g0] .
  let ?s1 = "s\<lparr>couple_widget := couple_widget s @ [w], couple_tile := couple_tile s @ [?t]\<rparr>"
  have cells: "?cells = (fr, fc) # tl ?cells" using sp by (rule area_cells_hd)
  have ing: "\<forall>(r, c) \<in> set ?cells. in_grid s r c"
    using b(1-4) by (auto simp: set_area_cells in_grid_def)
  show ?thesis
  proof (cases "rs > 1 \<or> cs > 1")
    case True
    have sh1: "shape_ok ?s1" using sh by simp
    have "set (tl ?cells) \<subseteq> set ?cells" by (metis cells set_subset_Cons)
    then have in1: "\<forall>(r, c) \<in> set (tl ?cells). in_grid ?s1 r c" using ing by auto
    from merge_loop_effect[OF sh1 in1, of ?t] obtain m where
      m1: "merge_loop ?s1 ?t (tl ?cells) = (None, ?s1\<lparr>tile_map := m\<rparr>)" and
      m2: "shape_ok (?s1\<lparr>tile_map := m\<rparr>)" and
      m3: "\<forall>r c. in_grid ?s1 r c \<longrightarrow>
             owner (?s1\<lparr>tile_map := m\<rparr>) r c = (if (r, c) \<in> set (tl ?cells) then ?t else owner ?s1 r c)"
      by blast
    have res: "addWidget s w fr fc rs cs =
            (None, s\<lparr>tile_map := m,
                     heap := (heap s)[?t := tile_addWidget w (updateSize fr fc rs cs (heap s ! ?t))],
                     couple_widget := couple_widget s @ [w],
                     couple_tile := couple_tile s @ [?t]\<rparr>)"
      using True w e get m1 tl by (simp add: addWidget_def mergeTiles_def Let_def)
    have sh2: "shape_ok (s\<lparr>tile_map := m\<rparr>)" using m2 by (simp add: shape_ok_def)
    have own: "\<forall>r c. in_grid s r c \<longrightarrow>
               owner (s\<lparr>tile_map := m\<rparr>) r c =
                 (if fr \<le> r \<and> r < fr + rs \<and> fc \<le> c \<and> c < fc + cs then ?t else owner s r c)"
    proof (intro allI impI)
      fix r c assume g: "in_grid s r c"
      have o: "owner (s\<lparr>tile_map := m\<rparr>) r c = (if (r, c) \<in> set (tl ?cells) then ?t else owner s r c)"
        using m3[rule_format, of r c] g by (simp add: owner_def)
      have "(r, c) \<in> set ?cells \<longleftrightarrow> (r, c) = (fr, fc) \<or> (r, c) \<in> set (tl ?cells)"
        by (metis cells set_ConsD list.set_intros(1,2))
      then have "(fr \<le> r \<and> r < fr + rs \<and> fc \<le> c \<and> c < fc + cs) \<longleftrightarrow>
                   (r, c) = (fr, fc) \<or> (r, c) \<in> set (tl ?cells)"
        by (simp add: set_area_cells)
      then show "owner (s\<lparr>tile_map := m\<rparr>) r c =
                 (if fr \<le> r \<and> r < fr + rs \<and> fc \<le> c \<and> c < fc + cs then ?t else owner s r c)"
        using o by auto
    qed
    show ?thesis using res sh2 own by blast
  next
    case False
    then have one: "rs = 1" "cs = 1" using sp by auto
    have "updateSize fr fc rs cs (heap s ! ?t) = heap s ! ?t"
      using ut by (simp add: updateSize_def one tile_at_def)
    then have res: "addWidget s w fr fc rs cs =
            (None, s\<lparr>tile_map := tile_map s,
                     heap := (heap s)[?t := tile_addWidget w (updateSize fr fc rs cs (heap s ! ?t))],
                     couple_widget := couple_widget s @ [w],
                     couple_tile := couple_tile s @ [?t]\<rparr>)"
      using False w e get by (simp add: addWidget_def Let_def)
    have "s\<lparr>tile_map := tile_map s\<rparr> = s" by simp
    then have "shape_ok (s\<lparr>tile_map := tile_map s\<rparr>)" and
      "\<forall>r c. in_grid s r c \<longrightarrow>
               owner (s\<lparr>tile_map := tile_map s\<rparr>) r c =
                 (if fr \<le> r \<and> r < fr + rs \<and> fc \<le> c \<and> c < fc + cs then ?t else owner s r c)"
      using sh one by auto
    then show ?thesis using res by blast
  qed
qed


lemma invD:
  assumes "inv s"
  shows "grid_inv s" "registry_ok s" "shape_ok s" "partition_ok s" "units_ok s"
  using assms by (simp_all add: inv_def grid_inv_def)

lemma registry_okD:
  assumes "registry_ok s"
  shows "length (couple_widget s) = length (couple_tile s)"
    and "distinct (couple_widget s)"
    and "distinct (couple_tile s)"
    and "\<And>t. t \<in> set (couple_tile s) \<Longrightarrow>
           t < length (heap s) \<and> filled (heap s ! t) \<and>
           in_grid s (from_row (heap s ! t)) (from_column (heap s ! t)) \<and>
           owner s (from_row (heap s ! t)) (from_column (heap s ! t)) = t"
    and "\<And>r c. in_grid s r c \<Longrightarrow> filled (tile_at s r c) \<Longrightarrow> owner s r c \<in> set (couple_tile s)"
  using assms unfolding registry_ok_iff by blast+

lemma addWidget_inv:
  assumes i: "inv s"
    and w: "w \<notin> set (couple_widget s)"
    and e: "isAreaEmpty s fr fc rs cs = Inr True"
    and sp: "1 \<le> rs" "1 \<le> cs"
  shows "fst (addWidget s w fr fc rs cs) = None \<and> inv (snd (addWidget s w fr fc rs cs))"
proof -
  let ?t = "owner s fr fc"
  have gi: "grid_inv s" and ro: "registry_ok s" and sh: "shape_ok s" using i by (rule invD)+
  note b = isAreaEmpty_TrueD[OF sh e]
  note reg = registry_okD[OF ro]
  have g0: "in_grid s fr fc" using b(1-4) sp by (simp add: in_grid_def)
  have nf: "\<not> filled (tile_at s fr fc)" using b(5)[of fr fc] sp by simp
  note ut = unit_tile_at[OF gi g0 nf]
  have tl: "?t < length (heap s)" using partition_okD(1)[OF grid_invD(2)[OF gi] g0] .
  have tnew: "?t \<notin> set (couple_tile s)" using reg(4)[of ?t] nf by (auto simp: tile_at_def)
  from addWidget_effect[OF gi w e sp] obtain m where
    res: "addWidget s w fr fc rs cs =
            (None, s\<lparr>tile_map := m,
                     heap := (heap s)[?t := tile_addWidget w (updateSize fr fc rs cs (heap s ! ?t))],
                     couple_widget := couple_widget s @ [w],
                     couple_tile := couple_tile s @ [?t]\<rparr>)" and
    shm: "shape_ok (s\<lparr>tile_map := m\<rparr>)" and
    own: "\<forall>r c. in_grid s r c \<longrightarrow>
               owner (s\<lparr>tile_map := m\<rparr>) r c =
                 (if fr \<le> r \<and> r < fr + rs \<and> fc \<le> c \<and> c < fc + cs then ?t else owner s r c)"
    by blast
  define s' where "s' = s\<lparr>tile_map := m,
                     heap := (heap s)[?t := tile_addWidget w (updateSize fr fc rs cs (heap s ! ?t))],
                     couple_widget := couple_widget s @ [w],
                     couple_tile := couple_tile s @ [?t]\<rparr>"
  define A where "A = {(r, c). fr \<le> r \<and> r < fr + rs \<and> fc \<le> c \<and> c < fc + cs}"
  have ig: "\<And>r c. in_grid s' r c = in_grid s r c" by (simp add: s'_def in_grid_def)
  have hp: "heap s' = (heap s)[?t := tile_addWidget w (updateSize fr fc rs cs (heap s ! ?t))]"
    by (simp add: s'_def)
  have ow: "\<And>r c. in_grid s r c \<Longrightarrow> owner s' r c = (if (r, c) \<in> A then ?t else owner s r c)"
    using own by (simp add: s'_def owner_def A_def)
  have ht: "heap s' ! ?t = tile_addWidget w (updateSize fr fc rs cs (heap s ! ?t))"
    using tl by (simp add: hp)
  have ho: "\<And>u. u \<noteq> ?t \<Longrightarrow> heap s' ! u = heap s ! u" by (simp add: hp)
  have gi': "grid_inv s'"
  proof (rule grid_merge[OF gi _ _ _ _ g0 refl, where A = A])
    show "row_number s' = row_number s" "column_number s' = column_number s"
      by (simp_all add: s'_def)
    show "shape_ok s'" using shm by (simp add: s'_def shape_ok_def)
    show "length (heap s') = length (heap s)" by (simp add: hp)
    show "\<And>r c. (r, c) \<in> A \<Longrightarrow> in_grid s r c \<and> (owner s r c = ?t \<or> \<not> filled (tile_at s r c))"
      using b by (auto simp: A_def in_grid_def)
    show "\<And>r c. in_grid s r c \<Longrightarrow> owner s' r c = (if (r, c) \<in> A then ?t else owner s r c)"
      by (rule ow)
    show "\<And>u. u \<noteq> ?t \<Longrightarrow> u < length (heap s) \<Longrightarrow> heap s' ! u = heap s ! u"
      by (rule ho)
    show "\<And>r c. covers (heap s' ! ?t) r c \<longleftrightarrow> (r, c) \<in> A \<or> covers (heap s ! ?t) r c"
      using ut sp by (auto simp: ht A_def covers_def tile_addWidget_def updateSize_def tile_at_def)
    show "filled (heap s' ! ?t)" by (simp add: ht tile_addWidget_def)
  qed
  have ro': "registry_ok s'"
    unfolding registry_ok_iff
  proof (intro conjI ballI allI impI)
    show "length (couple_widget s') = length (couple_tile s')" using reg(1) by (simp add: s'_def)
    show "distinct (couple_widget s')" using reg(2) w by (simp add: s'_def)
    show "distinct (couple_tile s')" using reg(3) tnew by (simp add: s'_def)
  next
    fix u assume "u \<in> set (couple_tile s')"
    then have u: "u = ?t \<or> u \<in> set (couple_tile s)" by (auto simp: s'_def)
    show "u < length (heap s')" using u tl reg(4)[of u] by (auto simp: hp)
    show "filled (heap s' ! u)"
    proof (cases "u = ?t")
      case True then show ?thesis by (simp add: ht tile_addWidget_def)
    next
      case False then show ?thesis using u reg(4)[of u] by (simp add: ho)
    qed
    show "in_grid s' (from_row (heap s' ! u)) (from_column (heap s' ! u))"
    proof (cases "u = ?t")
      case True then show ?thesis using g0 by (simp add: ht tile_addWidget_def updateSize_def ig)
    next
      case False then show ?thesis using u reg(4)[of u] by (simp add: ho ig)
    qed
    show "owner s' (from_row (heap s' ! u)) (from_column (heap s' ! u)) = u"
    proof (cases "u = ?t")
      case True
      then show ?thesis using ow[OF g0] sp by (simp add: ht tile_addWidget_def updateSize_def A_def)
    next
      case False
      let ?r = "from_row (heap s ! u)" and ?c = "from_column (heap s ! u)"
      have r: "filled (heap s ! u)" "in_grid s ?r ?c" "owner s ?r ?c = u"
        using u False reg(4)[of u] by simp_all
      have "(?r, ?c) \<notin> A"
      proof
        assume "(?r, ?c) \<in> A"
        then have "\<not> filled (tile_at s ?r ?c)" using b(5)[of ?r ?c] by (simp add: A_def)
        then show False using r by (simp add: tile_at_def)
      qed
      then show ?thesis using ow[OF r(2)] r(3) False by (simp add: ho)
    qed
  next
    fix r c assume "in_grid s' r c" and f: "filled (tile_at s' r c)"
    then have g: "in_grid s r c" by (simp add: ig)
    show "owner s' r c \<in> set (couple_tile s')"
    proof (cases "owner s' r c = ?t")
      case True then show ?thesis by (simp add: s'_def)
    next
      case False
      then have o: "owner s' r c = owner s r c" using ow[OF g] by (simp split: if_splits)
      then have "filled (tile_at s r c)" using f False ho[of "owner s r c"] by (simp add: tile_at_def)
      then have "owner s r c \<in> set (couple_tile s)" using reg(5)[OF g] by simp
      then show ?thesis using o by (simp add: s'_def)
    qed
  qed
  have "inv s'" using gi' ro' by (simp add: inv_def)
  then show ?thesis using res by (simp add: s'_def)
qed

section \<open>Removing a widget\<close>

lemma index_of_Some:
  "index_of xs x = Some i \<Longrightarrow> i < length xs \<and> xs ! i = x"
proof (induction xs arbitrary: i)
  case Nil then show ?case by simp
next
  case (Cons y ys)
  show ?case
  proof (cases "y = x")
    case True then show ?thesis using Cons.prems by simp
  next
    case False
    then obtain j where j: "index_of ys x = Some j" "i = Suc j"
      using Cons.prems by (auto split: option.splits)
    then show ?thesis using Cons.IH[OF j(1)] by simp
  qed
qed

lemma index_of_None: "index_of xs x = None \<longleftrightarrow> x \<notin> set xs"
  by (induction xs) (auto split: option.splits)

lemma index_of_mem: "x \<in> set xs \<Longrightarrow> \<exists>i. index_of xs x = Some i"
  using index_of_None[of xs x] by (cases "index_of xs x") auto







lemma registered_tile:
  assumes i: "inv s" and t: "t \<in> set (couple_tile s)"
  shows "t < length (heap s)" "filled (heap s ! t)"
    "in_grid s (from_row (heap s ! t)) (from_column (heap s ! t))"
    "owner s (from_row (heap s ! t)) (from_column (heap s ! t)) = t"
    "1 \<le> row_span (heap s ! t)" "1 \<le> column_span (heap s ! t)"
    "\<And>r c. covers (heap s ! t) r c \<Longrightarrow> in_grid s r c \<and> owner s r c = t"
proof -
  note r = registry_okD(4)[OF invD(2)[OF i] t]
  show a: "t < length (heap s)" "filled (heap s ! t)"
    "in_grid s (from_row (heap s ! t)) (from_column (heap s ! t))"
    "owner s (from_row (heap s ! t)) (from_column (heap s ! t)) = t"
    using r by simp_all
  have c: "covers (heap s ! t) (from_row (heap s ! t)) (from_column (heap s ! t))"
    using partition_okD(2)[OF invD(4)[OF i] a(3)] a(4) by (simp add: tile_at_def)
  then show "1 \<le> row_span (heap s ! t)" "1 \<le> column_span (heap s ! t)"
    by (auto simp: covers_def)
  show "\<And>r c. covers (heap s ! t) r c \<Longrightarrow> in_grid s r c \<and> owner s r c = t"
    using partition_ok_cells[OF invD(4)[OF i] a(3)] a(4) by (simp add: tile_at_def)
qed



section \<open>The freshly constructed grid\<close>

lemma createTileMap_columns_closed:
  assumes "tile_map s \<noteq> []"
  shows "createTileMap_columns s i_row cols =
           (None, s\<lparr>tile_map := butlast (tile_map s) @
                       [last (tile_map s) @ [length (heap s)..<length (heap s) + length cols]],
                    heap := heap s @ map (\<lambda>c. Tile i_row c 1 1) cols\<rparr>)"
  using assms
proof (induction cols arbitrary: s)
  case Nil
  then show ?case by simp
next
  case (Cons c cols)
  let ?s1 = "s\<lparr>heap := heap s @ [Tile i_row c 1 1],
               tile_map := butlast (tile_map s) @ [last (tile_map s) @ [length (heap s)]]\<rparr>"
  have ne: "tile_map ?s1 \<noteq> []" by simp
  have u: "[length (heap s)..<length (heap s) + length (c # cols)] =
           length (heap s) # [Suc (length (heap s))..<Suc (length (heap s)) + length cols]"
    by (subst upt_conv_Cons) simp_all
  have step: "createTileMap_columns s i_row (c # cols) = createTileMap_columns ?s1 i_row cols"
    using Cons.prems by (simp add: createTile_def Let_def)
  show ?case unfolding step Cons.IH[OF ne] u by simp
qed

lemma createTileMap_rows_closed:
  assumes "column_number s = C"
  shows "createTileMap_rows s rows =
           (None, s\<lparr>tile_map := tile_map s @ map (row_ids (length (heap s)) (nat C)) [0..<length rows],
                    heap := heap s @ concat (map (\<lambda>r. map (\<lambda>c. Tile r c 1 1) (py_range C)) rows)\<rparr>)"
  using assms
proof (induction rows arbitrary: s)
  case Nil
  then show ?case by simp
next
  case (Cons r rows)
  let ?s0 = "s\<lparr>tile_map := tile_map s @ [[]]\<rparr>"
  let ?s1 = "s\<lparr>tile_map := tile_map s @ [[length (heap s)..<length (heap s) + nat C]],
               heap := heap s @ map (\<lambda>c. Tile r c 1 1) (py_range C)\<rparr>"
  have ne: "tile_map ?s0 \<noteq> []" by simp
  have lc: "length (py_range C) = nat C" by (simp add: py_range_def)
  have c: "createTileMap_columns ?s0 r (py_range (column_number s)) = (None, ?s1)"
    unfolding createTileMap_columns_closed[OF ne] by (simp add: Cons.prems lc)
  have cn: "column_number ?s1 = C" using Cons.prems by simp
  have step: "createTileMap_rows s (r # rows) = createTileMap_rows ?s1 rows"
    using c by simp
  have ids: "map (row_ids (length (heap s)) (nat C)) [0..<length (r # rows)] =
        [length (heap s)..<length (heap s) + nat C] #
        map (row_ids (length (heap ?s1)) (nat C)) [0..<length rows]"
  proof -
    have "[0..<length (r # rows)] = 0 # map Suc [0..<length rows]"
      by (simp add: upt_conv_Cons map_Suc_upt del: upt_Suc)
    moreover have "\<And>k. row_ids (length (heap s)) (nat C) (Suc k) = row_ids (length (heap ?s1)) (nat C) k"
      by (simp add: row_ids_def lc algebra_simps)
    ultimately show ?thesis by (simp add: row_ids_def comp_def)
  qed
  show ?case unfolding step Cons.IH[OF cn] ids by simp
qed


lemma concat_uniform:
  assumes "\<forall>x \<in> set xss. length x = n"
  shows "length (concat xss) = length xss * n"
    and "i < length xss \<Longrightarrow> j < n \<Longrightarrow> concat xss ! (i * n + j) = xss ! i ! j"
  using assms
proof (induction xss arbitrary: i)
  case Nil
  { case 1 show ?case by simp }
  { case 2 then show ?case by simp }
next
  case (Cons x xss)
  { case 1 then show ?case using Cons.IH(1) by simp }
  { case 2
    have lx: "length x = n" using 2(3) by simp
    show ?case
    proof (cases i)
      case 0
      then show ?thesis using 2(2) lx by (simp add: nth_append)
    next
      case (Suc i')
      have "concat xss ! (i' * n + j) = xss ! i' ! j"
        using Cons.IH(2)[of i'] 2 Suc by simp
      moreover have "Suc i' * n + j = length x + (i' * n + j)" using lx by simp
      ultimately show ?thesis using Suc by (simp only: concat.simps nth_append_length_plus nth_Cons_Suc)
    qed }
qed

lemma init_closed:
  "init R C =
     (None, \<lparr>row_number = R, column_number = C,
             tile_map = map (row_ids 0 (nat C)) [0..<nat R],
             heap = concat (map (\<lambda>r. map (\<lambda>c. Tile r c 1 1) (py_range C)) (py_range R)),
             couple_widget = [], couple_tile = [], tileResized = []\<rparr>)"
proof -
  have l: "length (py_range R) = nat R" by (simp add: py_range_def)
  show ?thesis
    unfolding init_def createTileMap_def
    by (subst createTileMap_rows_closed[where C = C]) (simp_all add: l)
qed

lemma init_cells:
  fixes R C :: int and s :: "'w layout"
  defines "s \<equiv> snd (init R C)"
  assumes "in_grid s r c"
  shows "owner s r c < length (heap s)"
    and "tile_at s r c = Tile r c 1 1"
proof -
  let ?xss = "map (\<lambda>r. map (\<lambda>c. Tile r c 1 1 :: 'w tile) (py_range C)) (py_range R)"
  have g: "0 \<le> r" "r < R" "0 \<le> c" "c < C"
    using assms by (simp_all add: init_closed in_grid_def)
  have nr: "nat r < nat R" and nc: "nat c < nat C" using g by simp_all
  have o: "owner s r c = nat r * nat C + nat c"
    using nr nc by (simp add: s_def init_closed owner_def row_ids_def)
  have u: "\<forall>x \<in> set ?xss. length x = nat C" by (auto simp: py_range_def)
  have lx: "length ?xss = nat R" by (simp add: py_range_def)
  have "nat r * nat C + nat c < nat r * nat C + nat C" using nc by simp
  also have "\<dots> = Suc (nat r) * nat C" by simp
  also have "\<dots> \<le> nat R * nat C"
  proof -
    have "Suc (nat r) \<le> nat R" using nr by (rule Suc_leI)
    then show ?thesis by (rule mult_le_mono1)
  qed
  finally have "nat r * nat C + nat c < length (concat ?xss)"
    using concat_uniform(1)[OF u] lx by simp
  then show "owner s r c < length (heap s)"
    by (simp add: o) (simp add: s_def init_closed)
  have "concat ?xss ! (nat r * nat C + nat c) = ?xss ! nat r ! nat c"
    using concat_uniform(2)[OF u, of "nat r" "nat c"] nr nc lx by simp
  also have "\<dots> = Tile r c 1 1" using nr nc g by (simp add: py_range_def)
  finally show "tile_at s r c = Tile r c 1 1"
    by (simp add: tile_at_def o) (simp add: s_def init_closed)
qed

lemma init_inv:
  fixes R C :: int and s :: "'w layout"
  defines "s \<equiv> snd (init R C)"
  shows "inv s"
proof -
  have sh: "shape_ok s" by (auto simp: s_def init_closed shape_ok_def row_ids_def)
  have part: "partition_ok s"
    unfolding partition_ok_iff
  proof (intro allI impI)
    fix r c assume g: "in_grid s r c"
    note ic = init_cells[OF g[unfolded s_def], folded s_def]
    show "owner s r c < length (heap s) \<and> covers (tile_at s r c) r c \<and>
          (\<forall>r' c'. covers (tile_at s r c) r' c' \<longrightarrow> in_grid s r' c' \<and> owner s r' c' = owner s r c)"
      using ic g by (simp add: covers_Tile_unit)
  qed
  have nof: "\<And>r c. in_grid s r c \<Longrightarrow> tile_at s r c = Tile r c 1 1"
  proof -
    fix r c assume g: "in_grid s r c"
    show "tile_at s r c = Tile r c 1 1" using init_cells(2)[OF g[unfolded s_def], folded s_def] .
  qed
  have units: "units_ok s"
    unfolding units_ok_iff using nof by (simp add: Tile_def)
  have reg: "registry_ok s"
    unfolding registry_ok_iff using nof by (simp add: Tile_def) (simp add: s_def init_closed)
  show ?thesis using sh part units reg by (simp add: inv_def grid_inv_def)
qed

lemma init_ok: "fst (init R C) = None"
  by (simp add: init_closed)

section \<open>Rejected placements\<close>

lemma map_get_InrD:
  assumes "shape_ok s" "0 \<le> r" "0 \<le> c" "map_get (tile_map s) r c = Inr t"
  shows "in_grid s r c" "t = owner s r c"
proof -
  have r: "py_index (length (tile_map s)) r = Some (nat r)" "r < int (length (tile_map s))"
    using assms(2,4) unfolding map_get_def py_index_def
    by (auto simp: Let_def split: option.splits if_splits)
  then have c: "py_index (length (tile_map s ! nat r)) c = Some (nat c)" "c < int (length (tile_map s ! nat r))"
    using assms(3,4) unfolding map_get_def py_index_def
    by (auto simp: Let_def split: option.splits if_splits)
  have rr: "r < row_number s" using r(2) assms(1,2) by (auto simp: shape_ok_def split: if_splits)
  moreover have "c < column_number s"
    using c(2) row_length[OF assms(1,2) rr] assms(3) by (auto split: if_splits)
  ultimately show "in_grid s r c" using assms(2,3) by (simp add: in_grid_def)
  show "t = owner s r c" using assms(4) r(1) c(1) by (simp add: map_get_def owner_def)
qed

lemma isAreaEmpty_total:
  assumes "shape_ok s"
  shows "\<exists>b. isAreaEmpty s fr fc rs cs = Inr b"
  using isAreaEmpty_in_grid[OF assms] by blast

lemma addWidget_general:
  assumes sh: "shape_ok s"
    and w: "w \<notin> set (couple_widget s)"
    and e: "isAreaEmpty s fr fc rs cs = Inr True"
    and get: "map_get (tile_map s) fr fc = Inr t"
  shows "\<exists>m. addWidget s w fr fc rs cs =
            (None, s\<lparr>tile_map := m,
                     heap := (heap s)[t := tile_addWidget w
                                (if rs > 1 \<or> cs > 1 then updateSize fr fc rs cs (heap s ! t)
                                 else heap s ! t)],
                     couple_widget := couple_widget s @ [w],
                     couple_tile := couple_tile s @ [t]\<rparr>) \<and>
            shape_ok (s\<lparr>tile_map := m\<rparr>) \<and>
            (\<forall>r c. in_grid s r c \<longrightarrow>
               owner (s\<lparr>tile_map := m\<rparr>) r c =
                 (if (rs > 1 \<or> cs > 1) \<and> (r, c) \<in> set (tl (area_cells fr fc rs cs))
                  then t else owner s r c))"
proof -
  let ?cells = "area_cells fr fc rs cs"
  let ?s1 = "s\<lparr>couple_widget := couple_widget s @ [w], couple_tile := couple_tile s @ [t]\<rparr>"
  note b = isAreaEmpty_TrueD[OF sh e]
  have ing: "\<forall>(r, c) \<in> set ?cells. in_grid s r c"
    using b(1-4) by (auto simp: set_area_cells in_grid_def)
  show ?thesis
  proof (cases "rs > 1 \<or> cs > 1")
    case True
    have sh1: "shape_ok ?s1" using sh by simp
    have "set (tl ?cells) \<subseteq> set ?cells" by (cases ?cells) auto
    then have in1: "\<forall>(r, c) \<in> set (tl ?cells). in_grid ?s1 r c" using ing by auto
    from merge_loop_effect[OF sh1 in1, of t] obtain m where
      m1: "merge_loop ?s1 t (tl ?cells) = (None, ?s1\<lparr>tile_map := m\<rparr>)" and
      m2: "shape_ok (?s1\<lparr>tile_map := m\<rparr>)" and
      m3: "\<forall>r c. in_grid ?s1 r c \<longrightarrow>
             owner (?s1\<lparr>tile_map := m\<rparr>) r c = (if (r, c) \<in> set (tl ?cells) then t else owner ?s1 r c)"
      by blast
    have h: "(heap s)[t := updateSize fr fc rs cs (heap s ! t),
                     t := tile_addWidget w ((heap s)[t := updateSize fr fc rs cs (heap s ! t)] ! t)] =
             (heap s)[t := tile_addWidget w (updateSize fr fc rs cs (heap s ! t))]"
      by (cases "t < length (heap s)") (simp_all add: list_update_beyond)
    have res: "addWidget s w fr fc rs cs =
            (None, s\<lparr>tile_map := m,
                     heap := (heap s)[t := tile_addWidget w (updateSize fr fc rs cs (heap s ! t))],
                     couple_widget := couple_widget s @ [w],
                     couple_tile := couple_tile s @ [t]\<rparr>)"
      using True w e get m1 h by (simp add: addWidget_def mergeTiles_def Let_def)
    have sh2: "shape_ok (s\<lparr>tile_map := m\<rparr>)" using m2 by (simp add: shape_ok_def)
    have own: "\<forall>r c. in_grid s r c \<longrightarrow>
               owner (s\<lparr>tile_map := m\<rparr>) r c = (if (r, c) \<in> set (tl ?cells) then t else owner s r c)"
      using m3 by (simp add: owner_def)
    show ?thesis using res sh2 own True by (intro exI[of _ m]) simp
  next
    case False
    have res: "addWidget s w fr fc rs cs =
            (None, s\<lparr>tile_map := tile_map s,
                     heap := (heap s)[t := tile_addWidget w (heap s ! t)],
                     couple_widget := couple_widget s @ [w],
                     couple_tile := couple_tile s @ [t]\<rparr>)"
      using False w e get by (simp add: addWidget_def Let_def)
    have "s\<lparr>tile_map := tile_map s\<rparr> = s" by simp
    then show ?thesis using res sh False by (intro exI[of _ "tile_map s"]) simp
  qed
qed

lemma addWidget_failure_unchanged:
  assumes sh: "shape_ok s" and f: "fst (addWidget s w fr fc rs cs) \<noteq> None"
  shows "snd (addWidget s w fr fc rs cs) = s"
proof (cases "w \<in> set (couple_widget s)")
  case True
  then show ?thesis by (simp add: addWidget_def)
next
  case False
  obtain b where b: "isAreaEmpty s fr fc rs cs = Inr b" using isAreaEmpty_total[OF sh] by blast
  show ?thesis
  proof (cases b)
    case False
    then show ?thesis using b by (simp add: addWidget_def)
  next
    case True
    show ?thesis
    proof (cases "map_get (tile_map s) fr fc")
      case (Inl e)
      then show ?thesis using \<open>w \<notin> set (couple_widget s)\<close> b True by (simp add: addWidget_def)
    next
      case (Inr t)
      have bt: "isAreaEmpty s fr fc rs cs = Inr True" using b True by simp
      from addWidget_general[OF sh \<open>w \<notin> set (couple_widget s)\<close> bt Inr]
      show ?thesis using f by auto
    qed
  qed
qed

section \<open>Placement: claim C4\<close>

lemma addWidget_success:
  assumes sh: "shape_ok s" and ok: "fst (addWidget s w fr fc rs cs) = None"
  shows "w \<notin> set (couple_widget s)" "isAreaEmpty s fr fc rs cs = Inr True"
    "map_get (tile_map s) fr fc = Inr (owner s fr fc)" "in_grid s fr fc"
proof -
  show w: "w \<notin> set (couple_widget s)" using ok by (auto simp: addWidget_def)
  obtain b where b: "isAreaEmpty s fr fc rs cs = Inr b" using isAreaEmpty_total[OF sh] by blast
  have "b" using ok w b by (cases b) (auto simp: addWidget_def)
  then show e: "isAreaEmpty s fr fc rs cs = Inr True" using b by simp
  obtain t where t: "map_get (tile_map s) fr fc = Inr t"
    using ok w e by (cases "map_get (tile_map s) fr fc") (auto simp: addWidget_def)
  note d = isAreaEmpty_TrueD[OF sh e]
  show "in_grid s fr fc" using map_get_InrD(1)[OF sh d(1,2) t] .
  show "map_get (tile_map s) fr fc = Inr (owner s fr fc)"
    using map_get_InrD(2)[OF sh d(1,2) t] t by simp
qed

text \<open>
  Claim C4. \<open>addWidget\<close> fails (both asserts raise \<^verbatim>\<open>AssertionError\<close>) when the widget is
  already registered and when \<open>isAreaEmpty\<close> answers false; whenever it fails, the state
  is the one before the call; when it succeeds with a row span or a column span above 1,
  every cell of the rectangle, until then owned by an unfilled unit tile, references the
  tile that was at \<open>(from_row, from_column)\<close>, which has the rectangle as geometry, is
  filled, holds the widget and is registered with it.
\<close>

theorem addWidget_spec:
  assumes i: "inv s"
  shows "(w \<in> set (couple_widget s) \<longrightarrow> addWidget s w fr fc rs cs = (Some AssertionError, s)) \<and>
         (isAreaEmpty s fr fc rs cs = Inr False \<longrightarrow>
            addWidget s w fr fc rs cs = (Some AssertionError, s)) \<and>
         (fst (addWidget s w fr fc rs cs) \<noteq> None \<longrightarrow> snd (addWidget s w fr fc rs cs) = s) \<and>
         (fst (addWidget s w fr fc rs cs) = None \<and> (rs > 1 \<or> cs > 1) \<longrightarrow>
            (\<forall>r c. fr \<le> r \<and> r < fr + rs \<and> fc \<le> c \<and> c < fc + cs \<longrightarrow>
               \<not> filled (tile_at s r c) \<and>
               row_span (tile_at s r c) = 1 \<and> column_span (tile_at s r c) = 1 \<and>
               owner (snd (addWidget s w fr fc rs cs)) r c = owner s fr fc) \<and>
            heap (snd (addWidget s w fr fc rs cs)) ! owner s fr fc =
              \<lparr>from_row = fr, from_column = fc, row_span = rs, column_span = cs,
               filled = True, widget = Some w\<rparr> \<and>
            couple_widget (snd (addWidget s w fr fc rs cs)) = couple_widget s @ [w] \<and>
            couple_tile (snd (addWidget s w fr fc rs cs)) = couple_tile s @ [owner s fr fc])"
proof (intro conjI impI)
  show "w \<in> set (couple_widget s) \<Longrightarrow> addWidget s w fr fc rs cs = (Some AssertionError, s)"
    by (simp add: addWidget_def)
  show "isAreaEmpty s fr fc rs cs = Inr False \<Longrightarrow> addWidget s w fr fc rs cs = (Some AssertionError, s)"
    by (simp add: addWidget_def)
  show "fst (addWidget s w fr fc rs cs) \<noteq> None \<Longrightarrow> snd (addWidget s w fr fc rs cs) = s"
    using addWidget_failure_unchanged[OF invD(3)[OF i]] .
next
  assume a: "fst (addWidget s w fr fc rs cs) = None \<and> (rs > 1 \<or> cs > 1)"
  let ?t = "owner s fr fc"
  let ?s' = "snd (addWidget s w fr fc rs cs)"
  have sh: "shape_ok s" and gi: "grid_inv s" using i by (rule invD)+
  note su = addWidget_success[OF sh conjunct1[OF a]]
  note d = isAreaEmpty_TrueD[OF sh su(2)]
  have tl: "?t < length (heap s)" using partition_okD(1)[OF invD(4)[OF i] su(4)] .
  from addWidget_general[OF sh su(1,2,3)] a obtain m where
    res: "?s' = s\<lparr>tile_map := m,
                     heap := (heap s)[?t := tile_addWidget w (updateSize fr fc rs cs (heap s ! ?t))],
                     couple_widget := couple_widget s @ [w],
                     couple_tile := couple_tile s @ [?t]\<rparr>" and
    own: "\<forall>r c. in_grid s r c \<longrightarrow>
               owner (s\<lparr>tile_map := m\<rparr>) r c =
                 (if (r, c) \<in> set (tl (area_cells fr fc rs cs)) then ?t else owner s r c)"
    by auto
  show "heap ?s' ! ?t = \<lparr>from_row = fr, from_column = fc, row_span = rs, column_span = cs,
               filled = True, widget = Some w\<rparr>"
    using tl by (simp add: res tile_addWidget_def updateSize_def)
  show "couple_widget ?s' = couple_widget s @ [w]" by (simp add: res)
  show "couple_tile ?s' = couple_tile s @ [?t]" by (simp add: res)
  show "\<forall>r c. fr \<le> r \<and> r < fr + rs \<and> fc \<le> c \<and> c < fc + cs \<longrightarrow>
               \<not> filled (tile_at s r c) \<and>
               row_span (tile_at s r c) = 1 \<and> column_span (tile_at s r c) = 1 \<and>
               owner ?s' r c = ?t"
  proof (intro allI impI)
    fix r c assume rc: "fr \<le> r \<and> r < fr + rs \<and> fc \<le> c \<and> c < fc + cs"
    have g: "in_grid s r c" using rc d(1-4) by (simp add: in_grid_def)
    have nf: "\<not> filled (tile_at s r c)" using d(5)[of r c] rc by simp
    note ut = unit_tile_at[OF gi g nf]
    have sp: "1 \<le> rs" "1 \<le> cs" using rc by auto
    have "(r, c) \<in> set (area_cells fr fc rs cs)" using rc by (simp add: set_area_cells)
    then have "(r, c) = (fr, fc) \<or> (r, c) \<in> set (tl (area_cells fr fc rs cs))"
      using area_cells_hd[OF sp, of fr fc] by (metis set_ConsD)
    then have "owner (s\<lparr>tile_map := m\<rparr>) r c = ?t" using own g by auto
    then have "owner ?s' r c = ?t" by (simp add: res owner_def)
    then show "\<not> filled (tile_at s r c) \<and>
               row_span (tile_at s r c) = 1 \<and> column_span (tile_at s r c) = 1 \<and>
               owner ?s' r c = ?t"
      using nf ut by simp
  qed
qed

theorem addWidget_spec_witness:
  "inv (snd (init 2 3 :: py_error option \<times> nat layout)) \<and>
   addWidget (snd (init 2 3 :: py_error option \<times> nat layout)) 7 0 1 2 3
     = (Some AssertionError, snd (init 2 3)) \<and>
   owner (snd (addWidget (snd (init 2 3 :: py_error option \<times> nat layout)) 7 0 1 2 2)) 1 2
     = owner (snd (init 2 3 :: py_error option \<times> nat layout)) 0 1 \<and>
   couple_widget (snd (addWidget (snd (init 2 3 :: py_error option \<times> nat layout)) 7 0 1 2 2)) = [7]"
proof -
  let ?g = "snd (init 2 3 :: py_error option \<times> nat layout)"
  have i: "inv ?g" by (rule init_inv)
  have a: "isAreaEmpty ?g 0 1 2 3 = Inr False" by code_simp
  have b: "fst (addWidget ?g 7 0 1 2 2) = None" by code_simp
  have c: "couple_widget ?g = []" by code_simp
  have t1: "addWidget ?g 7 0 1 2 3 = (Some AssertionError, ?g)"
    using addWidget_spec[OF i, of 7 0 1 2 3] a by simp
  have t2: "owner (snd (addWidget ?g 7 0 1 2 2)) 1 2 = owner ?g 0 1"
    "couple_widget (snd (addWidget ?g 7 0 1 2 2)) = [7]"
    using addWidget_spec[OF i, of 7 0 1 2 2] b c by simp_all
  show ?thesis using i t1 t2 by simp
qed

section \<open>Removal and the round trip: claims C5 and C7\<close>




lemma inv_placed_ok:
  assumes i: "inv s" and t: "t \<in> set (couple_tile s)"
  shows "placed_ok s t"
proof -
  note rt = registered_tile[OF i t]
  let ?T = "heap s ! t"
  have "covers ?T (from_row ?T) (from_column ?T)" using rt(5,6) by (simp add: covers_def)
  then have a: "in_grid s (from_row ?T) (from_column ?T)" using rt(7) by blast
  have "covers ?T (from_row ?T + row_span ?T - 1) (from_column ?T + column_span ?T - 1)"
    using rt(5,6) by (simp add: covers_def)
  then have b: "in_grid s (from_row ?T + row_span ?T - 1) (from_column ?T + column_span ?T - 1)"
    using rt(7) by blast
  show ?thesis using rt(5,6) a b by (simp add: placed_ok_def in_grid_def)
qed








section \<open>What a shrink request sheds\<close>

lemma covers_in_rect:
  "covers t r c \<longleftrightarrow> in_rect (from_row t) (from_column t) (row_span t) (column_span t) r c"
  by (simp add: covers_def in_rect_def)

lemma set_comprehension:
  "x \<in> set (concat (map (\<lambda>a. map (f a) (py_range B)) (py_range A))) \<longleftrightarrow>
     (\<exists>a b. 0 \<le> a \<and> a < A \<and> 0 \<le> b \<and> b < B \<and> x = f a b)"
proof
  assume "x \<in> set (concat (map (\<lambda>a. map (f a) (py_range B)) (py_range A)))"
  then obtain a where a: "a \<in> {0..<A}" "x \<in> f a ` {0..<B}" by (auto simp: set_py_range)
  then obtain b where b: "b \<in> {0..<B}" "x = f a b" by blast
  show "\<exists>a b. 0 \<le> a \<and> a < A \<and> 0 \<le> b \<and> b < B \<and> x = f a b"
    using a(1) b by (intro exI[of _ a] exI[of _ b]) simp
next
  assume "\<exists>a b. 0 \<le> a \<and> a < A \<and> 0 \<le> b \<and> b < B \<and> x = f a b"
  then obtain a b where ab: "0 \<le> a" "a < A" "0 \<le> b" "b < B" "x = f a b" by blast
  have "x \<in> f a ` {0..<B}" using ab by simp
  moreover have "a \<in> {0..<A}" using ab by simp
  ultimately have "\<exists>a \<in> {0..<A}. x \<in> f a ` {0..<B}" by blast
  then show "x \<in> set (concat (map (\<lambda>a. map (f a) (py_range B)) (py_range A)))"
    by (simp add: set_py_range)
qed

text \<open>The four cases of \<open>getTilesToSplit\<close>.\<close>

lemma getTilesToSplit_north:
  assumes "map_get (tile_map s) fr fc = Inr t"
  shows "getTilesToSplit s (0, - 1) fr fc n =
           Inr (if n < row_span (heap s ! t) then n else row_span (heap s ! t) - 1,
                area_cells fr fc (if n < row_span (heap s ! t) then n else row_span (heap s ! t) - 1)
                  (column_span (heap s ! t)))"
  using assms by (simp add: getTilesToSplit_def Let_def b2i_def area_cells_def)

lemma getTilesToSplit_west:
  assumes "map_get (tile_map s) fr fc = Inr t"
  shows "getTilesToSplit s (- 1, 0) fr fc n =
           Inr (if n < column_span (heap s ! t) then n else column_span (heap s ! t) - 1,
                area_cells fr fc (row_span (heap s ! t))
                  (if n < column_span (heap s ! t) then n else column_span (heap s ! t) - 1))"
  using assms by (simp add: getTilesToSplit_def Let_def b2i_def area_cells_def)

lemma getTilesToSplit_south:
  assumes "map_get (tile_map s) fr fc = Inr t"
  shows "getTilesToSplit s (0, 1) fr fc n =
           Inr (if - n < row_span (heap s ! t) then n else 1 - row_span (heap s ! t),
                concat (map (\<lambda>row. map (\<lambda>column. (fr + (row_span (heap s ! t) - 1) - row, fc + column))
                                   (py_range (column_span (heap s ! t))))
                          (py_range (- (if - n < row_span (heap s ! t) then n
                                        else 1 - row_span (heap s ! t))))))"
  using assms by (simp add: getTilesToSplit_def Let_def b2i_def)

lemma getTilesToSplit_east:
  assumes "map_get (tile_map s) fr fc = Inr t"
  shows "getTilesToSplit s (1, 0) fr fc n =
           Inr (if - n < column_span (heap s ! t) then n else 1 - column_span (heap s ! t),
                concat (map (\<lambda>row. map (\<lambda>column. (fr + row, fc + (column_span (heap s ! t) - 1) - column))
                                   (py_range (- (if - n < column_span (heap s ! t) then n
                                                 else 1 - column_span (heap s ! t)))))
                          (py_range (row_span (heap s ! t)))))"
  using assms by (simp add: getTilesToSplit_def Let_def b2i_def)


lemma set_rows_from_south:
  "(r, c) \<in> set (concat (map (\<lambda>row. map (\<lambda>column. (fr + (rs - 1) - row, fc + column)) (py_range cs))
                            (py_range k))) \<longleftrightarrow>
     fr + rs - k \<le> r \<and> r < fr + rs \<and> fc \<le> c \<and> c < fc + cs"
proof -
  have "(\<exists>a b. 0 \<le> a \<and> a < k \<and> 0 \<le> b \<and> b < cs \<and> (r, c) = (fr + (rs - 1) - a, fc + b)) \<longleftrightarrow>
        fr + rs - k \<le> r \<and> r < fr + rs \<and> fc \<le> c \<and> c < fc + cs"
  proof
    assume "\<exists>a b. 0 \<le> a \<and> a < k \<and> 0 \<le> b \<and> b < cs \<and> (r, c) = (fr + (rs - 1) - a, fc + b)"
    then show "fr + rs - k \<le> r \<and> r < fr + rs \<and> fc \<le> c \<and> c < fc + cs" by auto
  next
    assume a: "fr + rs - k \<le> r \<and> r < fr + rs \<and> fc \<le> c \<and> c < fc + cs"
    show "\<exists>a b. 0 \<le> a \<and> a < k \<and> 0 \<le> b \<and> b < cs \<and> (r, c) = (fr + (rs - 1) - a, fc + b)"
      using a by (intro exI[of _ "fr + rs - 1 - r"] exI[of _ "c - fc"]) auto
  qed
  then show ?thesis by (simp only: set_comprehension)
qed

lemma set_columns_from_east:
  "(r, c) \<in> set (concat (map (\<lambda>row. map (\<lambda>column. (fr + row, fc + (cs - 1) - column)) (py_range k))
                            (py_range rs))) \<longleftrightarrow>
     fr \<le> r \<and> r < fr + rs \<and> fc + cs - k \<le> c \<and> c < fc + cs"
proof -
  have "(\<exists>a b. 0 \<le> a \<and> a < rs \<and> 0 \<le> b \<and> b < k \<and> (r, c) = (fr + a, fc + (cs - 1) - b)) \<longleftrightarrow>
        fr \<le> r \<and> r < fr + rs \<and> fc + cs - k \<le> c \<and> c < fc + cs"
  proof
    assume "\<exists>a b. 0 \<le> a \<and> a < rs \<and> 0 \<le> b \<and> b < k \<and> (r, c) = (fr + a, fc + (cs - 1) - b)"
    then show "fr \<le> r \<and> r < fr + rs \<and> fc + cs - k \<le> c \<and> c < fc + cs" by auto
  next
    assume a: "fr \<le> r \<and> r < fr + rs \<and> fc + cs - k \<le> c \<and> c < fc + cs"
    show "\<exists>a b. 0 \<le> a \<and> a < rs \<and> 0 \<le> b \<and> b < k \<and> (r, c) = (fr + a, fc + (cs - 1) - b)"
      using a by (intro exI[of _ "r - fr"] exI[of _ "fc + cs - 1 - c"]) auto
  qed
  then show ?thesis by (simp only: set_comprehension)
qed

lemma py_range_Nil: "py_range n = [] \<longleftrightarrow> n \<le> 0"
  by (simp add: py_range_def)

lemma concat_map_map_Nil: "concat (map (\<lambda>a. map (f a) ys) xs) = [] \<longleftrightarrow> xs = [] \<or> ys = []"
  by (induction xs) auto

lemma concat_rows_empty:
  "concat (map (\<lambda>a. map (f a) (py_range B)) (py_range A)) = [] \<longleftrightarrow> A \<le> 0 \<or> B \<le> 0"
  by (simp only: concat_map_map_Nil py_range_Nil)

lemma area_cells_Nil: "area_cells fr fc rs cs = [] \<longleftrightarrow> rs \<le> 0 \<or> cs \<le> 0"
  unfolding area_cells_def by (rule concat_rows_empty)

text \<open>What a shrink request sheds, for the four directions at once.\<close>

lemma shrink_facts:
  assumes d: "unit_direction d"
    and shrink: "n * (fst d + snd d) \<le> 0"
    and get: "map_get (tile_map s) fr fc = Inr t"
    and sp: "1 \<le> row_span (heap s ! t)" "1 \<le> column_span (heap s ! t)"
  shows "\<exists>k cells. getTilesToSplit s d fr fc n = Inr (k, cells) \<and>
           (\<forall>r c. (r, c) \<in> set cells \<longleftrightarrow>
              in_rect fr fc (row_span (heap s ! t)) (column_span (heap s ! t)) r c \<and>
              \<not> in_rect (fr + k * b2i (snd d = - 1)) (fc + k * b2i (fst d = - 1))
                  (row_span (heap s ! t) + k * snd d) (column_span (heap s ! t) + k * fst d) r c) \<and>
           (\<forall>r c. in_rect (fr + k * b2i (snd d = - 1)) (fc + k * b2i (fst d = - 1))
                  (row_span (heap s ! t) + k * snd d) (column_span (heap s ! t) + k * fst d) r c \<longrightarrow>
              in_rect fr fc (row_span (heap s ! t)) (column_span (heap s ! t)) r c) \<and>
           1 \<le> row_span (heap s ! t) + k * snd d \<and>
           1 \<le> column_span (heap s ! t) + k * fst d \<and>
           (cells = [] \<longleftrightarrow> k = 0) \<and>
           k * (fst d + snd d) \<le> 0 \<and> \<bar>k\<bar> \<le> \<bar>n\<bar>"
proof -
  let ?rs = "row_span (heap s ! t)" and ?cs = "column_span (heap s ! t)"
  consider (east) "d = (1, 0)" | (west) "d = (- 1, 0)" | (south) "d = (0, 1)" | (north) "d = (0, - 1)"
    using d by (auto simp: unit_direction_def)
  then show ?thesis
  proof cases
    case east
    define k where "k = (if - n < ?cs then n else 1 - ?cs)"
    define cells where "cells = concat (map (\<lambda>row. map (\<lambda>column. (fr + row, fc + (?cs - 1) - column))
                                   (py_range (- k))) (py_range ?rs))"
    have n: "n \<le> 0" using shrink east by simp
    have kb: "k \<le> 0" "- k < ?cs" "\<bar>k\<bar> \<le> \<bar>n\<bar>" using n sp by (auto simp: k_def)
    have g: "getTilesToSplit s d fr fc n = Inr (k, cells)"
      unfolding east getTilesToSplit_east[OF get] k_def cells_def ..
    have m: "\<And>r c. (r, c) \<in> set cells \<longleftrightarrow>
               fr \<le> r \<and> r < fr + ?rs \<and> fc + ?cs - (- k) \<le> c \<and> c < fc + ?cs"
      unfolding cells_def by (rule set_columns_from_east)
    have e: "cells = [] \<longleftrightarrow> k = 0"
      unfolding cells_def concat_rows_empty using kb sp by auto
    show ?thesis
      using g kb sp e by (intro exI[of _ k] exI[of _ cells]) (auto simp: m east in_rect_def b2i_def)
  next
    case west
    define k where "k = (if n < ?cs then n else ?cs - 1)"
    define cells where "cells = area_cells fr fc ?rs k"
    have n: "0 \<le> n" using shrink west by simp
    have kb: "0 \<le> k" "k < ?cs" "\<bar>k\<bar> \<le> \<bar>n\<bar>" using n sp by (auto simp: k_def)
    have g: "getTilesToSplit s d fr fc n = Inr (k, cells)"
      unfolding west getTilesToSplit_west[OF get] k_def cells_def ..
    have m: "\<And>r c. (r, c) \<in> set cells \<longleftrightarrow> fr \<le> r \<and> r < fr + ?rs \<and> fc \<le> c \<and> c < fc + k"
      unfolding cells_def by (simp add: set_area_cells)
    have e: "cells = [] \<longleftrightarrow> k = 0"
      unfolding cells_def area_cells_Nil using kb sp by auto
    show ?thesis
      using g kb sp e by (intro exI[of _ k] exI[of _ cells]) (auto simp: m west in_rect_def b2i_def)
  next
    case south
    define k where "k = (if - n < ?rs then n else 1 - ?rs)"
    define cells where "cells = concat (map (\<lambda>row. map (\<lambda>column. (fr + (?rs - 1) - row, fc + column))
                                   (py_range ?cs)) (py_range (- k)))"
    have n: "n \<le> 0" using shrink south by simp
    have kb: "k \<le> 0" "- k < ?rs" "\<bar>k\<bar> \<le> \<bar>n\<bar>" using n sp by (auto simp: k_def)
    have g: "getTilesToSplit s d fr fc n = Inr (k, cells)"
      unfolding south getTilesToSplit_south[OF get] k_def cells_def ..
    have m: "\<And>r c. (r, c) \<in> set cells \<longleftrightarrow>
               fr + ?rs - (- k) \<le> r \<and> r < fr + ?rs \<and> fc \<le> c \<and> c < fc + ?cs"
      unfolding cells_def by (rule set_rows_from_south)
    have e: "cells = [] \<longleftrightarrow> k = 0"
      unfolding cells_def concat_rows_empty using kb sp by auto
    show ?thesis
      using g kb sp e by (intro exI[of _ k] exI[of _ cells]) (auto simp: m south in_rect_def b2i_def)
  next
    case north
    define k where "k = (if n < ?rs then n else ?rs - 1)"
    define cells where "cells = area_cells fr fc k ?cs"
    have n: "0 \<le> n" using shrink north by simp
    have kb: "0 \<le> k" "k < ?rs" "\<bar>k\<bar> \<le> \<bar>n\<bar>" using n sp by (auto simp: k_def)
    have g: "getTilesToSplit s d fr fc n = Inr (k, cells)"
      unfolding north getTilesToSplit_north[OF get] k_def cells_def ..
    have m: "\<And>r c. (r, c) \<in> set cells \<longleftrightarrow> fr \<le> r \<and> r < fr + k \<and> fc \<le> c \<and> c < fc + ?cs"
      unfolding cells_def by (simp add: set_area_cells)
    have e: "cells = [] \<longleftrightarrow> k = 0"
      unfolding cells_def area_cells_Nil using kb sp by auto
    show ?thesis
      using g kb sp e by (intro exI[of _ k] exI[of _ cells]) (auto simp: m north in_rect_def b2i_def)
  qed
qed

section \<open>Shrinking a tile\<close>

lemma index_of_less:
  "index_of xs x = Some i \<Longrightarrow> i < length xs"
  using index_of_Some by fastforce

text \<open>
  A resize request is addressed to a tile through its origin: \<open>(fr, fc)\<close> is a cell of the
  grid and the origin of the tile that owns it.
\<close>

lemma anchored_tile:
  assumes i: "inv s" and g: "in_grid s fr fc"
    and a: "from_row (tile_at s fr fc) = fr" "from_column (tile_at s fr fc) = fc"
  shows "map_get (tile_map s) fr fc = Inr (owner s fr fc)"
    "owner s fr fc < length (heap s)"
    "1 \<le> row_span (tile_at s fr fc)" "1 \<le> column_span (tile_at s fr fc)"
    "\<And>r c. covers (tile_at s fr fc) r c \<longleftrightarrow>
        in_rect fr fc (row_span (tile_at s fr fc)) (column_span (tile_at s fr fc)) r c"
    "\<And>r c. covers (tile_at s fr fc) r c \<Longrightarrow> in_grid s r c \<and> owner s r c = owner s fr fc"
    "\<And>r c. in_grid s r c \<Longrightarrow> owner s r c = owner s fr fc \<Longrightarrow> covers (tile_at s fr fc) r c"
proof -
  show "map_get (tile_map s) fr fc = Inr (owner s fr fc)"
    using invD(3)[OF i] g by (rule map_get_in_grid)
  show "owner s fr fc < length (heap s)" using partition_okD(1)[OF invD(4)[OF i] g] .
  have c: "covers (tile_at s fr fc) fr fc" using partition_okD(2)[OF invD(4)[OF i] g] .
  then show "1 \<le> row_span (tile_at s fr fc)" "1 \<le> column_span (tile_at s fr fc)"
    by (auto simp: covers_def)
  show "\<And>r c. covers (tile_at s fr fc) r c \<longleftrightarrow>
        in_rect fr fc (row_span (tile_at s fr fc)) (column_span (tile_at s fr fc)) r c"
    using a by (simp add: covers_in_rect)
  show "\<And>r c. covers (tile_at s fr fc) r c \<Longrightarrow> in_grid s r c \<and> owner s r c = owner s fr fc"
    using partition_ok_cells[OF invD(4)[OF i] g] .
  show "\<And>r c. in_grid s r c \<Longrightarrow> owner s r c = owner s fr fc \<Longrightarrow> covers (tile_at s fr fc) r c"
  proof -
    fix r c assume "in_grid s r c" "owner s r c = owner s fr fc"
    then show "covers (tile_at s fr fc) r c"
      using partition_okD(2)[OF invD(4)[OF i], of r c] by (simp add: tile_at_def)
  qed
qed

lemma resize_shrink_effect:
  assumes i: "inv s" and g: "in_grid s fr fc"
    and a: "from_row (tile_at s fr fc) = fr" "from_column (tile_at s fr fc) = fc"
    and d: "unit_direction d"
    and shrink: "n * (fst d + snd d) \<le> 0"
  shows "\<exists>k cells. getTilesToSplit s d fr fc n = Inr (k, cells) \<and>
           (\<forall>r c. (r, c) \<in> set cells \<longleftrightarrow>
              in_rect fr fc (row_span (tile_at s fr fc)) (column_span (tile_at s fr fc)) r c \<and>
              \<not> in_rect (fr + k * b2i (snd d = - 1)) (fc + k * b2i (fst d = - 1))
                  (row_span (tile_at s fr fc) + k * snd d)
                  (column_span (tile_at s fr fc) + k * fst d) r c) \<and>
           (\<forall>r c. in_rect (fr + k * b2i (snd d = - 1)) (fc + k * b2i (fst d = - 1))
                  (row_span (tile_at s fr fc) + k * snd d)
                  (column_span (tile_at s fr fc) + k * fst d) r c \<longrightarrow>
              in_rect fr fc (row_span (tile_at s fr fc)) (column_span (tile_at s fr fc)) r c) \<and>
           1 \<le> row_span (tile_at s fr fc) + k * snd d \<and>
           1 \<le> column_span (tile_at s fr fc) + k * fst d \<and>
           (cells = [] \<longleftrightarrow> k = 0) \<and>
           k * (fst d + snd d) \<le> 0 \<and> \<bar>k\<bar> \<le> \<bar>n\<bar> \<and>
           (cells = [] \<longrightarrow> resizeTile s d fr fc n = (None, s)) \<and>
           (cells \<noteq> [] \<longrightarrow>
              (\<exists>m h ix. resizeTile s d fr fc n =
                  (None, s\<lparr>tile_map := m,
                           heap := (heap s @ h)[owner s fr fc :=
                             updateSize (fr + k * b2i (snd d = - 1)) (fc + k * b2i (fst d = - 1))
                               (row_span (tile_at s fr fc) + k * snd d)
                               (column_span (tile_at s fr fc) + k * fst d) (tile_at s fr fc)],
                           tileResized := tileResized s @
                             [(couple_widget s ! ix,
                               fr + k * b2i (snd d = - 1), fc + k * b2i (fst d = - 1),
                               row_span (tile_at s fr fc) + k * snd d,
                               column_span (tile_at s fr fc) + k * fst d)]\<rparr>) \<and>
                index_of (couple_tile s) (owner s fr fc) = Some ix \<and>
                filled (tile_at s fr fc) \<and>
                shape_ok (s\<lparr>tile_map := m\<rparr>) \<and>
                (\<forall>r c. in_grid s r c \<longrightarrow> (r, c) \<in> set cells \<longrightarrow>
                   length (heap s) \<le> owner (s\<lparr>tile_map := m\<rparr>) r c \<and>
                   owner (s\<lparr>tile_map := m\<rparr>) r c < length (heap s) + length h \<and>
                   (heap s @ h) ! owner (s\<lparr>tile_map := m\<rparr>) r c = Tile r c 1 1) \<and>
                (\<forall>r c. in_grid s r c \<longrightarrow> (r, c) \<notin> set cells \<longrightarrow>
                   owner (s\<lparr>tile_map := m\<rparr>) r c = owner s r c)))"
proof -
  let ?t = "owner s fr fc"
  let ?T = "tile_at s fr fc"
  note at = anchored_tile[OF i g a]
  have T: "heap s ! ?t = ?T" by (simp add: tile_at_def)
  from shrink_facts[OF d shrink at(1), unfolded T, OF at(3,4)] obtain k cells where
    gs: "getTilesToSplit s d fr fc n = Inr (k, cells)" and
    mem: "\<forall>r c. (r, c) \<in> set cells \<longleftrightarrow>
              in_rect fr fc (row_span ?T) (column_span ?T) r c \<and>
              \<not> in_rect (fr + k * b2i (snd d = - 1)) (fc + k * b2i (fst d = - 1))
                  (row_span ?T + k * snd d) (column_span ?T + k * fst d) r c" and
    sub: "\<forall>r c. in_rect (fr + k * b2i (snd d = - 1)) (fc + k * b2i (fst d = - 1))
                  (row_span ?T + k * snd d) (column_span ?T + k * fst d) r c \<longrightarrow>
              in_rect fr fc (row_span ?T) (column_span ?T) r c" and
    rest: "1 \<le> row_span ?T + k * snd d" "1 \<le> column_span ?T + k * fst d"
      "cells = [] \<longleftrightarrow> k = 0" "k * (fst d + snd d) \<le> 0" "\<bar>k\<bar> \<le> \<bar>n\<bar>"
    by blast
  have ninc: "\<not> n * (fst d + snd d) > 0" using shrink by simp
  have e0: "cells = [] \<longrightarrow> resizeTile s d fr fc n = (None, s)"
    using at(1) gs ninc by (simp add: resizeTile_def Let_def)
  have e1: "cells \<noteq> [] \<longrightarrow>
              (\<exists>m h ix. resizeTile s d fr fc n =
                  (None, s\<lparr>tile_map := m,
                           heap := (heap s @ h)[?t :=
                             updateSize (fr + k * b2i (snd d = - 1)) (fc + k * b2i (fst d = - 1))
                               (row_span ?T + k * snd d) (column_span ?T + k * fst d) ?T],
                           tileResized := tileResized s @
                             [(couple_widget s ! ix,
                               fr + k * b2i (snd d = - 1), fc + k * b2i (fst d = - 1),
                               row_span ?T + k * snd d, column_span ?T + k * fst d)]\<rparr>) \<and>
                index_of (couple_tile s) ?t = Some ix \<and>
                filled ?T \<and>
                shape_ok (s\<lparr>tile_map := m\<rparr>) \<and>
                (\<forall>r c. in_grid s r c \<longrightarrow> (r, c) \<in> set cells \<longrightarrow>
                   length (heap s) \<le> owner (s\<lparr>tile_map := m\<rparr>) r c \<and>
                   owner (s\<lparr>tile_map := m\<rparr>) r c < length (heap s) + length h \<and>
                   (heap s @ h) ! owner (s\<lparr>tile_map := m\<rparr>) r c = Tile r c 1 1) \<and>
                (\<forall>r c. in_grid s r c \<longrightarrow> (r, c) \<notin> set cells \<longrightarrow>
                   owner (s\<lparr>tile_map := m\<rparr>) r c = owner s r c))"
  proof
    assume ne: "cells \<noteq> []"
    then have k0: "k \<noteq> 0" using rest(3) by simp
    have fil: "filled ?T"
    proof (rule ccontr)
      assume "\<not> filled ?T"
      then have "row_span ?T = 1 \<and> column_span ?T = 1"
        using units_okD[OF invD(5)[OF i] g] by simp
      moreover have "fst d * snd d = 0" "\<bar>fst d + snd d\<bar> = 1"
        using d by (auto simp: unit_direction_def)
      ultimately show False using rest(1,2,4) k0 d by (auto simp: unit_direction_def)
    qed
    then have "?t \<in> set (couple_tile s)" using registry_okD(5)[OF invD(2)[OF i] g] by simp
    then obtain ix where ix: "index_of (couple_tile s) ?t = Some ix"
      using index_of_mem by fastforce
    have ixl: "ix < length (couple_widget s)"
      using index_of_less[OF ix] registry_okD(1)[OF invD(2)[OF i]] by simp
    have ing: "\<forall>(r, c) \<in> set cells. in_grid s r c"
      using mem at(5,6) by auto
    from split_loop_effect[OF invD(3)[OF i] ing] obtain m h where
      m1: "split_loop s cells = (None, s\<lparr>tile_map := m, heap := heap s @ h\<rparr>)" and
      m2: "shape_ok (s\<lparr>tile_map := m\<rparr>)" and
      m3: "\<forall>r c. in_grid s r c \<longrightarrow> (r, c) \<in> set cells \<longrightarrow>
                   length (heap s) \<le> owner (s\<lparr>tile_map := m\<rparr>) r c \<and>
                   owner (s\<lparr>tile_map := m\<rparr>) r c < length (heap s) + length h \<and>
                   (heap s @ h) ! owner (s\<lparr>tile_map := m\<rparr>) r c = Tile r c 1 1" and
      m4: "\<forall>r c. in_grid s r c \<longrightarrow> (r, c) \<notin> set cells \<longrightarrow>
                   owner (s\<lparr>tile_map := m\<rparr>) r c = owner s r c"
      by blast
    have hT: "(heap s @ h) ! ?t = ?T" using at(2) by (simp add: nth_append tile_at_def)
    have res: "resizeTile s d fr fc n =
                  (None, s\<lparr>tile_map := m,
                           heap := (heap s @ h)[?t :=
                             updateSize (fr + k * b2i (snd d = - 1)) (fc + k * b2i (fst d = - 1))
                               (row_span ?T + k * snd d) (column_span ?T + k * fst d) ?T],
                           tileResized := tileResized s @
                             [(couple_widget s ! ix,
                               fr + k * b2i (snd d = - 1), fc + k * b2i (fst d = - 1),
                               row_span ?T + k * snd d, column_span ?T + k * fst d)]\<rparr>)"
      using at(1) gs ninc ne m1 ix ixl hT
      by (simp add: resizeTile_def Let_def splitTiles_def tile_at_def)
    show "\<exists>m h ix. resizeTile s d fr fc n =
                  (None, s\<lparr>tile_map := m,
                           heap := (heap s @ h)[?t :=
                             updateSize (fr + k * b2i (snd d = - 1)) (fc + k * b2i (fst d = - 1))
                               (row_span ?T + k * snd d) (column_span ?T + k * fst d) ?T],
                           tileResized := tileResized s @
                             [(couple_widget s ! ix,
                               fr + k * b2i (snd d = - 1), fc + k * b2i (fst d = - 1),
                               row_span ?T + k * snd d, column_span ?T + k * fst d)]\<rparr>) \<and>
                index_of (couple_tile s) ?t = Some ix \<and>
                filled ?T \<and>
                shape_ok (s\<lparr>tile_map := m\<rparr>) \<and>
                (\<forall>r c. in_grid s r c \<longrightarrow> (r, c) \<in> set cells \<longrightarrow>
                   length (heap s) \<le> owner (s\<lparr>tile_map := m\<rparr>) r c \<and>
                   owner (s\<lparr>tile_map := m\<rparr>) r c < length (heap s) + length h \<and>
                   (heap s @ h) ! owner (s\<lparr>tile_map := m\<rparr>) r c = Tile r c 1 1) \<and>
                (\<forall>r c. in_grid s r c \<longrightarrow> (r, c) \<notin> set cells \<longrightarrow>
                   owner (s\<lparr>tile_map := m\<rparr>) r c = owner s r c)"
      using res ix fil m2 m3 m4 by blast
  qed
  show ?thesis using gs mem sub rest e0 e1 by blast
qed

section \<open>Shrinking keeps the invariant\<close>

lemma resize_shrink_inv:
  assumes i: "inv s" and g: "in_grid s fr fc"
    and a: "from_row (tile_at s fr fc) = fr" "from_column (tile_at s fr fc) = fc"
    and d: "unit_direction d"
    and shrink: "n * (fst d + snd d) \<le> 0"
  shows "fst (resizeTile s d fr fc n) = None \<and> inv (snd (resizeTile s d fr fc n))"
proof -
  let ?t = "owner s fr fc"
  let ?T = "tile_at s fr fc"
  note at = anchored_tile[OF i g a]
  note reg = registry_okD[OF invD(2)[OF i]]
  from resize_shrink_effect[OF i g a d shrink] obtain k cells where
    mem: "\<forall>r c. (r, c) \<in> set cells \<longleftrightarrow>
              in_rect fr fc (row_span ?T) (column_span ?T) r c \<and>
              \<not> in_rect (fr + k * b2i (snd d = - 1)) (fc + k * b2i (fst d = - 1))
                  (row_span ?T + k * snd d) (column_span ?T + k * fst d) r c" and
    sub: "\<forall>r c. in_rect (fr + k * b2i (snd d = - 1)) (fc + k * b2i (fst d = - 1))
                  (row_span ?T + k * snd d) (column_span ?T + k * fst d) r c \<longrightarrow>
              in_rect fr fc (row_span ?T) (column_span ?T) r c" and
    sp: "1 \<le> row_span ?T + k * snd d" "1 \<le> column_span ?T + k * fst d" and
    e0: "cells = [] \<longrightarrow> resizeTile s d fr fc n = (None, s)" and
    e1: "cells \<noteq> [] \<longrightarrow>
              (\<exists>m h ix. resizeTile s d fr fc n =
                  (None, s\<lparr>tile_map := m,
                           heap := (heap s @ h)[?t :=
                             updateSize (fr + k * b2i (snd d = - 1)) (fc + k * b2i (fst d = - 1))
                               (row_span ?T + k * snd d) (column_span ?T + k * fst d) ?T],
                           tileResized := tileResized s @
                             [(couple_widget s ! ix,
                               fr + k * b2i (snd d = - 1), fc + k * b2i (fst d = - 1),
                               row_span ?T + k * snd d, column_span ?T + k * fst d)]\<rparr>) \<and>
                index_of (couple_tile s) ?t = Some ix \<and>
                filled ?T \<and>
                shape_ok (s\<lparr>tile_map := m\<rparr>) \<and>
                (\<forall>r c. in_grid s r c \<longrightarrow> (r, c) \<in> set cells \<longrightarrow>
                   length (heap s) \<le> owner (s\<lparr>tile_map := m\<rparr>) r c \<and>
                   owner (s\<lparr>tile_map := m\<rparr>) r c < length (heap s) + length h \<and>
                   (heap s @ h) ! owner (s\<lparr>tile_map := m\<rparr>) r c = Tile r c 1 1) \<and>
                (\<forall>r c. in_grid s r c \<longrightarrow> (r, c) \<notin> set cells \<longrightarrow>
                   owner (s\<lparr>tile_map := m\<rparr>) r c = owner s r c))"
    by blast
  show ?thesis
  proof (cases "cells = []")
    case True
    then show ?thesis using e0 i by simp
  next
    case False
    let ?fr = "fr + k * b2i (snd d = - 1)" and ?fc = "fc + k * b2i (fst d = - 1)"
    let ?rs = "row_span ?T + k * snd d" and ?cs = "column_span ?T + k * fst d"
    from e1 False obtain m h ix where
      res: "resizeTile s d fr fc n =
                  (None, s\<lparr>tile_map := m,
                           heap := (heap s @ h)[?t := updateSize ?fr ?fc ?rs ?cs ?T],
                           tileResized := tileResized s @ [(couple_widget s ! ix, ?fr, ?fc, ?rs, ?cs)]\<rparr>)" and
      fil: "filled ?T" and
      shm: "shape_ok (s\<lparr>tile_map := m\<rparr>)" and
      fresh: "\<forall>r c. in_grid s r c \<longrightarrow> (r, c) \<in> set cells \<longrightarrow>
                   length (heap s) \<le> owner (s\<lparr>tile_map := m\<rparr>) r c \<and>
                   owner (s\<lparr>tile_map := m\<rparr>) r c < length (heap s) + length h \<and>
                   (heap s @ h) ! owner (s\<lparr>tile_map := m\<rparr>) r c = Tile r c 1 1" and
      keep: "\<forall>r c. in_grid s r c \<longrightarrow> (r, c) \<notin> set cells \<longrightarrow>
                   owner (s\<lparr>tile_map := m\<rparr>) r c = owner s r c"
      by blast
    define s' where "s' = s\<lparr>tile_map := m,
                           heap := (heap s @ h)[?t := updateSize ?fr ?fc ?rs ?cs ?T],
                           tileResized := tileResized s @ [(couple_widget s ! ix, ?fr, ?fc, ?rs, ?cs)]\<rparr>"
    have ig: "\<And>r c. in_grid s' r c = in_grid s r c" by (simp add: s'_def in_grid_def)
    have ow: "\<And>r c. owner s' r c = owner (s\<lparr>tile_map := m\<rparr>) r c" by (simp add: s'_def owner_def)
    have hp: "heap s' = (heap s @ h)[?t := updateSize ?fr ?fc ?rs ?cs ?T]" by (simp add: s'_def)
    have ht: "heap s' ! ?t = updateSize ?fr ?fc ?rs ?cs ?T" using at(2) by (simp add: hp)
    have ho: "\<And>u. u \<noteq> ?t \<Longrightarrow> u < length (heap s) \<Longrightarrow> heap s' ! u = heap s ! u"
      by (simp add: hp nth_append)
    have hn: "\<And>u. length (heap s) \<le> u \<Longrightarrow> heap s' ! u = (heap s @ h) ! u"
      using at(2) by (simp add: hp)
    have pl: "\<And>r c. in_grid s r c \<Longrightarrow> owner s r c < length (heap s)"
      using partition_okD(1)[OF invD(4)[OF i]] .
    have cin: "\<And>r c. (r, c) \<in> set cells \<Longrightarrow> in_grid s r c \<and> owner s r c = ?t"
      using mem at(5,6) by blast
    have covn: "\<And>r c. covers (heap s' ! ?t) r c \<longleftrightarrow> in_rect ?fr ?fc ?rs ?cs r c"
      by (simp add: ht covers_in_rect updateSize_def)
    have gi': "grid_inv s'"
    proof (rule grid_split[OF invD(1)[OF i], where B = "set cells"])
      show "row_number s' = row_number s" "column_number s' = column_number s"
        by (simp_all add: s'_def)
      show "shape_ok s'" using shm by (simp add: s'_def shape_ok_def)
      show "length (heap s) \<le> length (heap s')" by (simp add: hp)
      show "\<And>r c. in_grid s r c \<Longrightarrow> (r, c) \<in> set cells \<Longrightarrow>
              owner s' r c < length (heap s') \<and> heap s' ! owner s' r c = Tile r c 1 1"
        using fresh hn by (simp add: ow) (simp add: hp)
      show "\<And>r c. in_grid s r c \<Longrightarrow> (r, c) \<notin> set cells \<Longrightarrow> owner s' r c = owner s r c"
        using keep by (simp add: ow)
      show "\<And>r c. in_grid s r c \<Longrightarrow> (r, c) \<notin> set cells \<Longrightarrow>
                  filled (heap s' ! owner s r c) = filled (heap s ! owner s r c) \<and>
                  (\<not> filled (heap s ! owner s r c) \<longrightarrow> heap s' ! owner s r c = heap s ! owner s r c) \<and>
                  (\<forall>r' c'. covers (heap s' ! owner s r c) r' c' \<longleftrightarrow>
                            covers (heap s ! owner s r c) r' c' \<and> (r', c') \<notin> set cells)"
      proof -
        fix r c assume gr: "in_grid s r c" and nb: "(r, c) \<notin> set cells"
        show "filled (heap s' ! owner s r c) = filled (heap s ! owner s r c) \<and>
                  (\<not> filled (heap s ! owner s r c) \<longrightarrow> heap s' ! owner s r c = heap s ! owner s r c) \<and>
                  (\<forall>r' c'. covers (heap s' ! owner s r c) r' c' \<longleftrightarrow>
                            covers (heap s ! owner s r c) r' c' \<and> (r', c') \<notin> set cells)"
        proof (cases "owner s r c = ?t")
          case True
          have "\<And>r' c'. in_rect ?fr ?fc ?rs ?cs r' c' \<longleftrightarrow>
                  covers ?T r' c' \<and> (r', c') \<notin> set cells"
            using mem sub at(5) by blast
          then show ?thesis using fil by (simp add: True covn) (simp add: ht updateSize_def tile_at_def)
        next
          case False
          have e: "heap s' ! owner s r c = heap s ! owner s r c" using ho[OF False pl[OF gr]] .
          have "\<And>r' c'. covers (heap s ! owner s r c) r' c' \<Longrightarrow> (r', c') \<notin> set cells"
          proof
            fix r' c' assume c: "covers (heap s ! owner s r c) r' c'" and b: "(r', c') \<in> set cells"
            have "owner s r' c' = owner s r c"
              using partition_ok_cells[OF invD(4)[OF i] gr] c by (simp add: tile_at_def)
            then show False using cin[OF b] False by simp
          qed
          then show ?thesis unfolding e by blast
        qed
      qed
    qed
    have ro': "registry_ok s'"
      unfolding registry_ok_iff
    proof (intro conjI ballI allI impI)
      show "length (couple_widget s') = length (couple_tile s')" using reg(1) by (simp add: s'_def)
      show "distinct (couple_widget s')" using reg(2) by (simp add: s'_def)
      show "distinct (couple_tile s')" using reg(3) by (simp add: s'_def)
    next
      fix u assume "u \<in> set (couple_tile s')"
      then have u: "u \<in> set (couple_tile s)" by (simp add: s'_def)
      note ru = registered_tile[OF i u]
      show "u < length (heap s')" using ru(1) by (simp add: hp)
      show "filled (heap s' ! u)"
        using ru(1,2) fil ho[of u] by (cases "u = ?t") (simp_all add: ht updateSize_def)
      show "in_grid s' (from_row (heap s' ! u)) (from_column (heap s' ! u))"
      proof (cases "u = ?t")
        case True
        have "in_rect ?fr ?fc ?rs ?cs ?fr ?fc" using sp by (simp add: in_rect_def)
        then have "covers ?T ?fr ?fc" using sub at(5) by blast
        then show ?thesis using at(6) by (simp add: True ht updateSize_def ig)
      next
        case False
        then show ?thesis using ru(1,3) ho[of u] by (simp add: ig)
      qed
      show "owner s' (from_row (heap s' ! u)) (from_column (heap s' ! u)) = u"
      proof (cases "u = ?t")
        case True
        have n: "in_rect ?fr ?fc ?rs ?cs ?fr ?fc" using sp by (simp add: in_rect_def)
        then have c: "covers ?T ?fr ?fc" using sub at(5) by blast
        have "(?fr, ?fc) \<notin> set cells" using mem n by blast
        then have "owner s' ?fr ?fc = owner s ?fr ?fc" using keep at(6)[OF c] by (simp add: ow)
        then show ?thesis using at(6)[OF c] by (simp add: True ht updateSize_def)
      next
        case False
        have "(from_row (heap s ! u), from_column (heap s ! u)) \<notin> set cells"
          using cin[of "from_row (heap s ! u)" "from_column (heap s ! u)"] ru(4) False by auto
        then show ?thesis using keep ru(1,3,4) ho[OF False ru(1)] by (simp add: ow)
      qed
    next
      fix r c assume "in_grid s' r c" and f: "filled (tile_at s' r c)"
      then have gr: "in_grid s r c" by (simp add: ig)
      show "owner s' r c \<in> set (couple_tile s')"
      proof (cases "(r, c) \<in> set cells")
        case True
        then have "heap s' ! owner s' r c = Tile r c 1 1"
          using fresh gr hn by (simp add: ow)
        then show ?thesis using f by (simp add: tile_at_def Tile_def)
      next
        case False
        then have o: "owner s' r c = owner s r c" using keep gr by (simp add: ow)
        have "filled (tile_at s r c)"
        proof (cases "owner s r c = ?t")
          case True then show ?thesis using fil by (simp add: tile_at_def)
        next
          case False then show ?thesis using f o ho[OF False pl[OF gr]] by (simp add: tile_at_def)
        qed
        then have "owner s r c \<in> set (couple_tile s)" using reg(5)[OF gr] by simp
        then show ?thesis using o by (simp add: s'_def)
      qed
    qed
    have "inv s'" using gi' ro' by (simp add: inv_def)
    then show ?thesis using res by (simp add: s'_def)
  qed
qed

section \<open>Shrinking: claims C6 and C9\<close>

lemma resize_shrink_tile:
  assumes i: "inv s" and g: "in_grid s fr fc"
    and a: "from_row (tile_at s fr fc) = fr" "from_column (tile_at s fr fc) = fc"
    and d: "unit_direction d"
    and shrink: "n * (fst d + snd d) \<le> 0"
    and gs: "getTilesToSplit s d fr fc n = Inr (k, cells)"
  shows "fst (resizeTile s d fr fc n) = None"
    and "heap (snd (resizeTile s d fr fc n)) ! owner s fr fc =
           updateSize (fr + k * b2i (snd d = - 1)) (fc + k * b2i (fst d = - 1))
             (row_span (tile_at s fr fc) + k * snd d)
             (column_span (tile_at s fr fc) + k * fst d) (tile_at s fr fc)"
    and "1 \<le> row_span (tile_at s fr fc) + k * snd d"
    and "1 \<le> column_span (tile_at s fr fc) + k * fst d"
    and "\<bar>k\<bar> \<le> \<bar>n\<bar>"
    and "cells = [] \<longleftrightarrow> k = 0"
    and "cells = [] \<Longrightarrow> resizeTile s d fr fc n = (None, s)"
proof -
  let ?t = "owner s fr fc"
  let ?T = "tile_at s fr fc"
  note at = anchored_tile[OF i g a]
  from resize_shrink_effect[OF i g a d shrink] gs have
    sp: "1 \<le> row_span ?T + k * snd d" "1 \<le> column_span ?T + k * fst d" and
    kn: "\<bar>k\<bar> \<le> \<bar>n\<bar>" and ck: "cells = [] \<longleftrightarrow> k = 0" and
    e0: "cells = [] \<longrightarrow> resizeTile s d fr fc n = (None, s)" and
    e1: "cells \<noteq> [] \<longrightarrow>
              (\<exists>m h ix. resizeTile s d fr fc n =
                  (None, s\<lparr>tile_map := m,
                           heap := (heap s @ h)[?t :=
                             updateSize (fr + k * b2i (snd d = - 1)) (fc + k * b2i (fst d = - 1))
                               (row_span ?T + k * snd d) (column_span ?T + k * fst d) ?T],
                           tileResized := tileResized s @
                             [(couple_widget s ! ix,
                               fr + k * b2i (snd d = - 1), fc + k * b2i (fst d = - 1),
                               row_span ?T + k * snd d, column_span ?T + k * fst d)]\<rparr>))"
    by auto
  show "1 \<le> row_span ?T + k * snd d" "1 \<le> column_span ?T + k * fst d" "\<bar>k\<bar> \<le> \<bar>n\<bar>"
    "cells = [] \<longleftrightarrow> k = 0"
    using sp kn ck by simp_all
  show "cells = [] \<Longrightarrow> resizeTile s d fr fc n = (None, s)" using e0 by simp
  show "fst (resizeTile s d fr fc n) = None" using e0 e1 by (cases "cells = []") auto
  show "heap (snd (resizeTile s d fr fc n)) ! ?t =
           updateSize (fr + k * b2i (snd d = - 1)) (fc + k * b2i (fst d = - 1))
             (row_span ?T + k * snd d) (column_span ?T + k * fst d) ?T"
  proof (cases "cells = []")
    case True
    then have "k = 0" using ck by simp
    then show ?thesis using e0 True a by (simp add: updateSize_def tile_at_def)
  next
    case False
    then show ?thesis using e1 at(2) by auto
  qed
qed

text \<open>
  Claim C6. A shrink request (a tile addressed by its origin, one of the four directions,
  a count whose sign is not that of the direction) never fails; the count granted is at
  most the count requested in size, and the spans of the tile after the call are the
  spans before plus the granted count along the axis, both at least 1. When the span
  along the axis of the direction is 1 already, 0 is granted, no cell is listed, and the
  call returns the state it was given: nothing is split and no signal is emitted.
\<close>

theorem shrink_clamped:
  assumes i: "inv s" and g: "in_grid s fr fc"
    and a: "from_row (tile_at s fr fc) = fr \<and> from_column (tile_at s fr fc) = fc"
    and d: "unit_direction d"
    and shrink: "n * (fst d + snd d) \<le> 0"
  shows "fst (resizeTile s d fr fc n) = None \<and>
         (\<exists>k cells. getTilesToSplit s d fr fc n = Inr (k, cells) \<and> \<bar>k\<bar> \<le> \<bar>n\<bar> \<and>
            row_span (heap (snd (resizeTile s d fr fc n)) ! owner s fr fc) =
              row_span (tile_at s fr fc) + k * snd d \<and>
            column_span (heap (snd (resizeTile s d fr fc n)) ! owner s fr fc) =
              column_span (tile_at s fr fc) + k * fst d) \<and>
         1 \<le> row_span (heap (snd (resizeTile s d fr fc n)) ! owner s fr fc) \<and>
         1 \<le> column_span (heap (snd (resizeTile s d fr fc n)) ! owner s fr fc) \<and>
         ((if fst d \<noteq> 0 then column_span (tile_at s fr fc) else row_span (tile_at s fr fc)) = 1 \<longrightarrow>
            getTilesToSplit s d fr fc n = Inr (0, []) \<and> resizeTile s d fr fc n = (None, s))"
proof -
  let ?T = "tile_at s fr fc"
  have a1: "from_row ?T = fr" and a2: "from_column ?T = fc" using a by simp_all
  obtain k cells where gs: "getTilesToSplit s d fr fc n = Inr (k, cells)"
    using resize_shrink_effect[OF i g a1 a2 d shrink] by blast
  note rt = resize_shrink_tile[OF i g a1 a2 d shrink gs]
  have sp': "row_span (heap (snd (resizeTile s d fr fc n)) ! owner s fr fc) = row_span ?T + k * snd d"
    "column_span (heap (snd (resizeTile s d fr fc n)) ! owner s fr fc) = column_span ?T + k * fst d"
    by (simp_all add: rt(2) updateSize_def)
  have last: "(if fst d \<noteq> 0 then column_span ?T else row_span ?T) = 1 \<longrightarrow>
            getTilesToSplit s d fr fc n = Inr (0, []) \<and> resizeTile s d fr fc n = (None, s)"
  proof
    assume one: "(if fst d \<noteq> 0 then column_span ?T else row_span ?T) = 1"
    have kd: "k * (fst d + snd d) \<le> 0"
      using resize_shrink_effect[OF i g a1 a2 d shrink] gs by auto
    have "k = 0" using one rt(3,4) kd d by (auto simp: unit_direction_def split: if_splits)
    then have "cells = []" using rt(6) by simp
    then show "getTilesToSplit s d fr fc n = Inr (0, []) \<and> resizeTile s d fr fc n = (None, s)"
      using gs \<open>k = 0\<close> rt(7) by simp
  qed
  show ?thesis using rt(1,3,4,5) gs sp' last by auto
qed


theorem shrink_clamped_witness:
  "inv (snd (addWidget (snd (init 3 2 :: py_error option \<times> nat layout)) 7 0 0 1 2)) \<and>
   in_grid (snd (addWidget (snd (init 3 2 :: py_error option \<times> nat layout)) 7 0 0 1 2)) 0 0 \<and>
   unit_direction (0, 1) \<and>
   resizeTile (snd (addWidget (snd (init 3 2 :: py_error option \<times> nat layout)) 7 0 0 1 2)) (0, 1) 0 0 (- 4)
     = (None, snd (addWidget (snd (init 3 2)) 7 0 0 1 2)) \<and>
   fst (resizeTile (snd (addWidget (snd (init 3 2 :: py_error option \<times> nat layout)) 7 0 0 1 2))
          (1, 0) 0 0 (- 4)) = None \<and>
   column_span (heap (snd (resizeTile
       (snd (addWidget (snd (init 3 2 :: py_error option \<times> nat layout)) 7 0 0 1 2)) (1, 0) 0 0 (- 4))) !
     owner (snd (addWidget (snd (init 3 2 :: py_error option \<times> nat layout)) 7 0 0 1 2)) 0 0) = 1"
proof -
  let ?g = "snd (init 3 2 :: py_error option \<times> nat layout)"
  let ?s = "snd (addWidget ?g 7 0 0 1 2)"
  have a: "7 \<notin> set (couple_widget ?g)" by code_simp
  have b: "isAreaEmpty ?g 0 0 1 2 = Inr True" by code_simp
  have i: "inv ?s" using addWidget_inv[OF init_inv a b] by simp
  have g: "in_grid ?s 0 0" by code_simp
  have an: "from_row (tile_at ?s 0 0) = 0 \<and> from_column (tile_at ?s 0 0) = 0" by code_simp
  have rs: "row_span (tile_at ?s 0 0) = 1" by code_simp
  have d1: "unit_direction (0, 1)" and d2: "unit_direction (1, 0)" by (simp_all add: unit_direction_def)
  have c: "column_span (heap (snd (resizeTile ?s (1, 0) 0 0 (- 4))) ! owner ?s 0 0) = 1" by code_simp
  have t1: "resizeTile ?s (0, 1) 0 0 (- 4) = (None, ?s)"
    using shrink_clamped[OF i g an d1, of "- 4"] rs by simp
  have t2: "fst (resizeTile ?s (1, 0) 0 0 (- 4)) = None"
    using shrink_clamped[OF i g an d2, of "- 4"] by simp
  show ?thesis using i g d1 t1 t2 c by simp
qed

text \<open>
  Claim C9 does not hold as stated: a shrink request with direction north sheds the
  northern-most rows and keeps the south edge. On a 3 by 1 grid with widget 7 on the whole
  column, the request (north, 1) lists cell (0, 0); afterwards the southern-most cell
  (2, 0) is still owned by the widget's tile, whose origin row is 1 and row span 2, and
  cell (0, 0) is owned by an unfilled tile.
\<close>

theorem shrink_north_counterexample:
  "getTilesToSplit (snd (addWidget (snd (init 3 1 :: py_error option \<times> nat layout)) 7 0 0 3 1))
      (0, - 1) 0 0 1 = Inr (1, [(0, 0)]) \<and>
   fst (resizeTile (snd (addWidget (snd (init 3 1 :: py_error option \<times> nat layout)) 7 0 0 3 1))
      (0, - 1) 0 0 1) = None \<and>
   owner (snd (resizeTile (snd (addWidget (snd (init 3 1 :: py_error option \<times> nat layout)) 7 0 0 3 1))
      (0, - 1) 0 0 1)) 2 0
     = owner (snd (addWidget (snd (init 3 1 :: py_error option \<times> nat layout)) 7 0 0 3 1)) 2 0 \<and>
   from_row (tile_at (snd (resizeTile
      (snd (addWidget (snd (init 3 1 :: py_error option \<times> nat layout)) 7 0 0 3 1)) (0, - 1) 0 0 1)) 2 0) = 1 \<and>
   row_span (tile_at (snd (resizeTile
      (snd (addWidget (snd (init 3 1 :: py_error option \<times> nat layout)) 7 0 0 3 1)) (0, - 1) 0 0 1)) 2 0) = 2 \<and>
   \<not> filled (tile_at (snd (resizeTile
      (snd (addWidget (snd (init 3 1 :: py_error option \<times> nat layout)) 7 0 0 3 1)) (0, - 1) 0 0 1)) 0 0)"
  by code_simp

text \<open>
  Claim C9, amended: a shrink request sheds the strips next to the edge its direction
  names, nearest to that edge first, and the opposite edge stays. With direction north
  the rows from the origin row downwards are listed and the tile's origin row moves down
  by the granted count; with direction west the same holds for columns; with direction
  south the rows are listed from the last row upwards and with direction east the columns
  from the last column leftwards, the origin staying where it is. In each case the span
  along the axis decreases by the granted count and the other span is unchanged.
\<close>

theorem shrink_sheds_named_edge:
  assumes i: "inv s" and g: "in_grid s fr fc"
    and a: "from_row (tile_at s fr fc) = fr \<and> from_column (tile_at s fr fc) = fc"
  shows "(0 \<le> n \<longrightarrow>
            getTilesToSplit s (0, - 1) fr fc n =
              Inr (min n (row_span (tile_at s fr fc) - 1),
                   area_cells fr fc (min n (row_span (tile_at s fr fc) - 1))
                     (column_span (tile_at s fr fc))) \<and>
            heap (snd (resizeTile s (0, - 1) fr fc n)) ! owner s fr fc =
              (tile_at s fr fc)\<lparr>from_row := fr + min n (row_span (tile_at s fr fc) - 1),
                 row_span := row_span (tile_at s fr fc) - min n (row_span (tile_at s fr fc) - 1)\<rparr>) \<and>
         (0 \<le> n \<longrightarrow>
            getTilesToSplit s (- 1, 0) fr fc n =
              Inr (min n (column_span (tile_at s fr fc) - 1),
                   area_cells fr fc (row_span (tile_at s fr fc))
                     (min n (column_span (tile_at s fr fc) - 1))) \<and>
            heap (snd (resizeTile s (- 1, 0) fr fc n)) ! owner s fr fc =
              (tile_at s fr fc)\<lparr>from_column := fc + min n (column_span (tile_at s fr fc) - 1),
                 column_span := column_span (tile_at s fr fc) - min n (column_span (tile_at s fr fc) - 1)\<rparr>) \<and>
         (n \<le> 0 \<longrightarrow>
            getTilesToSplit s (0, 1) fr fc n =
              Inr (max n (1 - row_span (tile_at s fr fc)),
                   concat (map (\<lambda>row. map (\<lambda>column.
                                 (fr + (row_span (tile_at s fr fc) - 1) - row, fc + column))
                               (py_range (column_span (tile_at s fr fc))))
                          (py_range (- max n (1 - row_span (tile_at s fr fc)))))) \<and>
            heap (snd (resizeTile s (0, 1) fr fc n)) ! owner s fr fc =
              (tile_at s fr fc)\<lparr>row_span :=
                 row_span (tile_at s fr fc) + max n (1 - row_span (tile_at s fr fc))\<rparr>) \<and>
         (n \<le> 0 \<longrightarrow>
            getTilesToSplit s (1, 0) fr fc n =
              Inr (max n (1 - column_span (tile_at s fr fc)),
                   concat (map (\<lambda>row. map (\<lambda>column.
                                 (fr + row, fc + (column_span (tile_at s fr fc) - 1) - column))
                               (py_range (- max n (1 - column_span (tile_at s fr fc)))))
                          (py_range (row_span (tile_at s fr fc))))) \<and>
            heap (snd (resizeTile s (1, 0) fr fc n)) ! owner s fr fc =
              (tile_at s fr fc)\<lparr>column_span :=
                 column_span (tile_at s fr fc) + max n (1 - column_span (tile_at s fr fc))\<rparr>)"
proof -
  let ?T = "tile_at s fr fc"
  have a1: "from_row ?T = fr" and a2: "from_column ?T = fc" using a by simp_all
  note at = anchored_tile[OF i g a1 a2]
  have T: "heap s ! owner s fr fc = ?T" by (simp add: tile_at_def)
  have mn: "\<And>x y :: int. (if x < y then x else y - 1) = min x (y - 1)" by auto
  have mx: "\<And>x y :: int. (if - x < y then x else 1 - y) = max x (1 - y)" by auto
  have north: "0 \<le> n \<longrightarrow>
            getTilesToSplit s (0, - 1) fr fc n =
              Inr (min n (row_span ?T - 1), area_cells fr fc (min n (row_span ?T - 1)) (column_span ?T)) \<and>
            heap (snd (resizeTile s (0, - 1) fr fc n)) ! owner s fr fc =
              ?T\<lparr>from_row := fr + min n (row_span ?T - 1),
                 row_span := row_span ?T - min n (row_span ?T - 1)\<rparr>"
  proof
    assume n: "0 \<le> n"
    have gs: "getTilesToSplit s (0, - 1) fr fc n =
              Inr (min n (row_span ?T - 1), area_cells fr fc (min n (row_span ?T - 1)) (column_span ?T))"
      using getTilesToSplit_north[OF at(1), of n] by (simp only: T mn)
    have d: "unit_direction (0, - 1)" by (simp add: unit_direction_def)
    have sh: "n * (fst (0 :: int, - 1 :: int) + snd (0 :: int, - 1 :: int)) \<le> 0" using n by simp
    have "heap (snd (resizeTile s (0, - 1) fr fc n)) ! owner s fr fc =
              ?T\<lparr>from_row := fr + min n (row_span ?T - 1),
                 row_span := row_span ?T - min n (row_span ?T - 1)\<rparr>"
      using resize_shrink_tile(2)[OF i g a1 a2 d sh gs] a2
      by (simp add: updateSize_def b2i_def)
    then show "getTilesToSplit s (0, - 1) fr fc n =
              Inr (min n (row_span ?T - 1), area_cells fr fc (min n (row_span ?T - 1)) (column_span ?T)) \<and>
            heap (snd (resizeTile s (0, - 1) fr fc n)) ! owner s fr fc =
              ?T\<lparr>from_row := fr + min n (row_span ?T - 1),
                 row_span := row_span ?T - min n (row_span ?T - 1)\<rparr>"
      using gs by simp
  qed
  have west: "0 \<le> n \<longrightarrow>
            getTilesToSplit s (- 1, 0) fr fc n =
              Inr (min n (column_span ?T - 1), area_cells fr fc (row_span ?T) (min n (column_span ?T - 1))) \<and>
            heap (snd (resizeTile s (- 1, 0) fr fc n)) ! owner s fr fc =
              ?T\<lparr>from_column := fc + min n (column_span ?T - 1),
                 column_span := column_span ?T - min n (column_span ?T - 1)\<rparr>"
  proof
    assume n: "0 \<le> n"
    have gs: "getTilesToSplit s (- 1, 0) fr fc n =
              Inr (min n (column_span ?T - 1), area_cells fr fc (row_span ?T) (min n (column_span ?T - 1)))"
      using getTilesToSplit_west[OF at(1), of n] by (simp only: T mn)
    have d: "unit_direction (- 1, 0)" by (simp add: unit_direction_def)
    have sh: "n * (fst (- 1 :: int, 0 :: int) + snd (- 1 :: int, 0 :: int)) \<le> 0" using n by simp
    have "heap (snd (resizeTile s (- 1, 0) fr fc n)) ! owner s fr fc =
              ?T\<lparr>from_column := fc + min n (column_span ?T - 1),
                 column_span := column_span ?T - min n (column_span ?T - 1)\<rparr>"
      using resize_shrink_tile(2)[OF i g a1 a2 d sh gs] a1
      by (simp add: updateSize_def b2i_def)
    then show "getTilesToSplit s (- 1, 0) fr fc n =
              Inr (min n (column_span ?T - 1), area_cells fr fc (row_span ?T) (min n (column_span ?T - 1))) \<and>
            heap (snd (resizeTile s (- 1, 0) fr fc n)) ! owner s fr fc =
              ?T\<lparr>from_column := fc + min n (column_span ?T - 1),
                 column_span := column_span ?T - min n (column_span ?T - 1)\<rparr>"
      using gs by simp
  qed
  have south: "n \<le> 0 \<longrightarrow>
            getTilesToSplit s (0, 1) fr fc n =
              Inr (max n (1 - row_span ?T),
                   concat (map (\<lambda>row. map (\<lambda>column. (fr + (row_span ?T - 1) - row, fc + column))
                               (py_range (column_span ?T)))
                          (py_range (- max n (1 - row_span ?T))))) \<and>
            heap (snd (resizeTile s (0, 1) fr fc n)) ! owner s fr fc =
              ?T\<lparr>row_span := row_span ?T + max n (1 - row_span ?T)\<rparr>"
  proof
    assume n: "n \<le> 0"
    have gs: "getTilesToSplit s (0, 1) fr fc n =
              Inr (max n (1 - row_span ?T),
                   concat (map (\<lambda>row. map (\<lambda>column. (fr + (row_span ?T - 1) - row, fc + column))
                               (py_range (column_span ?T)))
                          (py_range (- max n (1 - row_span ?T)))))"
      using getTilesToSplit_south[OF at(1), of n] by (simp only: T mx)
    have d: "unit_direction (0, 1)" by (simp add: unit_direction_def)
    have sh: "n * (fst (0 :: int, 1 :: int) + snd (0 :: int, 1 :: int)) \<le> 0" using n by simp
    have "heap (snd (resizeTile s (0, 1) fr fc n)) ! owner s fr fc =
              ?T\<lparr>row_span := row_span ?T + max n (1 - row_span ?T)\<rparr>"
      using resize_shrink_tile(2)[OF i g a1 a2 d sh gs] a1 a2
      by (simp add: updateSize_def b2i_def)
    then show "getTilesToSplit s (0, 1) fr fc n =
              Inr (max n (1 - row_span ?T),
                   concat (map (\<lambda>row. map (\<lambda>column. (fr + (row_span ?T - 1) - row, fc + column))
                               (py_range (column_span ?T)))
                          (py_range (- max n (1 - row_span ?T))))) \<and>
            heap (snd (resizeTile s (0, 1) fr fc n)) ! owner s fr fc =
              ?T\<lparr>row_span := row_span ?T + max n (1 - row_span ?T)\<rparr>"
      using gs by simp
  qed
  have east: "n \<le> 0 \<longrightarrow>
            getTilesToSplit s (1, 0) fr fc n =
              Inr (max n (1 - column_span ?T),
                   concat (map (\<lambda>row. map (\<lambda>column. (fr + row, fc + (column_span ?T - 1) - column))
                               (py_range (- max n (1 - column_span ?T))))
                          (py_range (row_span ?T)))) \<and>
            heap (snd (resizeTile s (1, 0) fr fc n)) ! owner s fr fc =
              ?T\<lparr>column_span := column_span ?T + max n (1 - column_span ?T)\<rparr>"
  proof
    assume n: "n \<le> 0"
    have gs: "getTilesToSplit s (1, 0) fr fc n =
              Inr (max n (1 - column_span ?T),
                   concat (map (\<lambda>row. map (\<lambda>column. (fr + row, fc + (column_span ?T - 1) - column))
                               (py_range (- max n (1 - column_span ?T))))
                          (py_range (row_span ?T))))"
      using getTilesToSplit_east[OF at(1), of n] by (simp only: T mx)
    have d: "unit_direction (1, 0)" by (simp add: unit_direction_def)
    have sh: "n * (fst (1 :: int, 0 :: int) + snd (1 :: int, 0 :: int)) \<le> 0" using n by simp
    have "heap (snd (resizeTile s (1, 0) fr fc n)) ! owner s fr fc =
              ?T\<lparr>column_span := column_span ?T + max n (1 - column_span ?T)\<rparr>"
      using resize_shrink_tile(2)[OF i g a1 a2 d sh gs] a1 a2
      by (simp add: updateSize_def b2i_def)
    then show "getTilesToSplit s (1, 0) fr fc n =
              Inr (max n (1 - column_span ?T),
                   concat (map (\<lambda>row. map (\<lambda>column. (fr + row, fc + (column_span ?T - 1) - column))
                               (py_range (- max n (1 - column_span ?T))))
                          (py_range (row_span ?T)))) \<and>
            heap (snd (resizeTile s (1, 0) fr fc n)) ! owner s fr fc =
              ?T\<lparr>column_span := column_span ?T + max n (1 - column_span ?T)\<rparr>"
      using gs by simp
  qed
  show ?thesis using north west south east by blast
qed

theorem shrink_sheds_named_edge_witness:
  "inv (snd (addWidget (snd (init 3 1 :: py_error option \<times> nat layout)) 7 0 0 3 1)) \<and>
   in_grid (snd (addWidget (snd (init 3 1 :: py_error option \<times> nat layout)) 7 0 0 3 1)) 0 0 \<and>
   getTilesToSplit (snd (addWidget (snd (init 3 1 :: py_error option \<times> nat layout)) 7 0 0 3 1))
      (0, - 1) 0 0 1 = Inr (1, area_cells 0 0 1 1) \<and>
   getTilesToSplit (snd (addWidget (snd (init 3 1 :: py_error option \<times> nat layout)) 7 0 0 3 1))
      (0, 1) 0 0 (- 1) = Inr (- 1, [(2, 0)])"
proof -
  let ?g = "snd (init 3 1 :: py_error option \<times> nat layout)"
  let ?s = "snd (addWidget ?g 7 0 0 3 1)"
  have a: "7 \<notin> set (couple_widget ?g)" by code_simp
  have b: "isAreaEmpty ?g 0 0 3 1 = Inr True" by code_simp
  have i: "inv ?s" using addWidget_inv[OF init_inv a b] by simp
  have g: "in_grid ?s 0 0" by code_simp
  have an: "from_row (tile_at ?s 0 0) = 0 \<and> from_column (tile_at ?s 0 0) = 0" by code_simp
  have rs: "row_span (tile_at ?s 0 0) = 3" and cs: "column_span (tile_at ?s 0 0) = 1" by code_simp+
  have t1: "getTilesToSplit ?s (0, - 1) 0 0 1 = Inr (1, area_cells 0 0 1 1)"
    using shrink_sheds_named_edge[OF i g an, of 1] rs cs by simp
  have e: "concat (map (\<lambda>row. map (\<lambda>column. (2 - row, column)) (py_range 1)) (py_range 1)) = [(2 :: int, 0 :: int)]"
    by (simp add: py_range_def)
  have t2: "getTilesToSplit ?s (0, 1) 0 0 (- 1) = Inr (- 1, [(2, 0)])"
    using shrink_sheds_named_edge[OF i g an, of "- 1"] rs cs e by simp
  show ?thesis using i g t1 t2 by simp
qed

section \<open>What a growth request is granted\<close>

lemma strip_blocked_in_grid:
  assumes "shape_ok s" "\<forall>(r, c) \<in> set cells. in_grid s r c"
  shows "strip_blocked s cells = Inr (\<not> free_strip s cells)"
  using assms(2)
proof (induction cells)
  case Nil
  then show ?case by (simp add: free_strip_def)
next
  case (Cons x cells)
  obtain r c where x: "x = (r, c)" by (cases x)
  have g: "in_grid s r c" using Cons.prems x by simp
  have get: "map_get (tile_map s) r c = Inr (owner s r c)"
    using assms(1) g by (rule map_get_in_grid)
  have ih: "strip_blocked s cells = Inr (\<not> free_strip s cells)" using Cons by simp
  show ?case using ih by (simp add: x get free_strip_def tile_at_def)
qed

lemma merge_scan_takeWhile:
  assumes "shape_ok s" "\<forall>k \<in> set ks. \<forall>(r, c) \<in> set (st k). in_grid s r c"
  shows "merge_scan s st d ks available acc =
           Inr (available + d * int (length (takeWhile (\<lambda>k. free_strip s (st k)) ks)),
                concat acc @ concat (map st (takeWhile (\<lambda>k. free_strip s (st k)) ks)))"
  using assms(2)
proof (induction ks arbitrary: available acc)
  case Nil
  then show ?case by simp
next
  case (Cons k ks)
  have b: "strip_blocked s (st k) = Inr (\<not> free_strip s (st k))"
    using strip_blocked_in_grid[OF assms(1), of "st k"] Cons.prems by simp
  show ?case
  proof (cases "free_strip s (st k)")
    case True
    have "merge_scan s st d (k # ks) available acc =
            merge_scan s st d ks (available + d) (acc @ [st k])"
      using b True by simp
    also have "\<dots> = Inr (available + d + d * int (length (takeWhile (\<lambda>k. free_strip s (st k)) ks)),
                concat (acc @ [st k]) @ concat (map st (takeWhile (\<lambda>k. free_strip s (st k)) ks)))"
      using Cons.IH[of "available + d" "acc @ [st k]"] Cons.prems by simp
    finally show ?thesis using True by (simp add: algebra_simps)
  next
    case False
    then show ?thesis using b by simp
  qed
qed

lemma takeWhile_py_range:
  "\<exists>j. 0 \<le> j \<and> j \<le> max 0 M \<and> takeWhile P (py_range M) = py_range j \<and>
       int (length (takeWhile P (py_range M))) = j \<and>
       (\<forall>i. 0 \<le> i \<and> i < j \<longrightarrow> P i) \<and> (j < M \<longrightarrow> \<not> P j)"
proof -
  let ?xs = "py_range M"
  let ?n = "length (takeWhile P ?xs)"
  have len: "length ?xs = nat M" by (simp add: py_range_def)
  have nl: "?n \<le> nat M" using length_takeWhile_le[of P ?xs] len by simp
  have tw: "takeWhile P ?xs = take ?n ?xs" by (rule takeWhile_eq_take)
  have "take ?n ?xs = map int [0..<?n]"
    using nl by (simp add: py_range_def take_map min_def)
  then have e: "takeWhile P ?xs = py_range (int ?n)" using tw by (simp add: py_range_def)
  have all: "\<forall>i. 0 \<le> i \<and> i < int ?n \<longrightarrow> P i"
  proof (intro allI impI)
    fix i assume i: "0 \<le> i \<and> i < int ?n"
    then have "i \<in> set (py_range (int ?n))" by (simp add: set_py_range)
    then have "i \<in> set (takeWhile P ?xs)" using e by simp
    then show "P i" by (rule set_takeWhileD[THEN conjunct2])
  qed
  have stop: "int ?n < M \<longrightarrow> \<not> P (int ?n)"
  proof
    assume "int ?n < M"
    then have l: "?n < length ?xs" using len by simp
    then have "\<not> P (?xs ! ?n)" by (rule nth_length_takeWhile)
    moreover have "?xs ! ?n = int ?n" using l len by (simp add: py_range_def)
    ultimately show "\<not> P (int ?n)" by simp
  qed
  show ?thesis
    using nl e all stop by (intro exI[of _ "int ?n"]) auto
qed

lemma py_range_one: "py_range 1 = [0]"
  by (simp add: py_range_def)

lemma area_cells_column: "area_cells fr c0 rs 1 = map (\<lambda>row. (fr + row, c0)) (py_range rs)"
  by (simp add: area_cells_def py_range_one concat_map_singleton)

lemma area_cells_row: "area_cells r0 fc 1 cs = map (\<lambda>column. (r0, fc + column)) (py_range cs)"
  by (simp add: area_cells_def py_range_one)

lemma column_strip_east: "column_strip 1 fr fc rs cs k = strip (1, 0) fr fc rs cs k"
  by (simp add: column_strip_def strip_def area_cells_column b2i_def add.assoc)

lemma column_strip_west: "column_strip (- 1) fr fc rs cs k = strip (- 1, 0) fr fc rs cs k"
  by (simp add: column_strip_def strip_def area_cells_column b2i_def)

lemma row_strip_south: "row_strip 1 fr fc rs cs k = strip (0, 1) fr fc rs cs k"
  by (simp add: row_strip_def strip_def area_cells_row b2i_def add.assoc)

lemma row_strip_north: "row_strip (- 1) fr fc rs cs k = strip (0, - 1) fr fc rs cs k"
  by (simp add: row_strip_def strip_def area_cells_row b2i_def)


lemma scan_result:
  assumes "shape_ok s"
    and "\<forall>k. 0 \<le> k \<and> k < M \<longrightarrow> (\<forall>(r, c) \<in> set (st k). in_grid s r c)"
  shows "\<exists>j. merge_scan s st dd (py_range M) 0 [] = Inr (dd * j, concat (map st (py_range j))) \<and>
             0 \<le> j \<and> j \<le> max 0 M \<and>
             (\<forall>i. 0 \<le> i \<and> i < j \<longrightarrow> free_strip s (st i)) \<and>
             (j < M \<longrightarrow> \<not> free_strip s (st j))"
proof -
  have ing: "\<forall>k \<in> set (py_range M). \<forall>(r, c) \<in> set (st k). in_grid s r c"
    using assms(2) by (simp add: set_py_range)
  obtain j where j: "0 \<le> j" "j \<le> max 0 M"
    "takeWhile (\<lambda>k. free_strip s (st k)) (py_range M) = py_range j"
    "int (length (takeWhile (\<lambda>k. free_strip s (st k)) (py_range M))) = j"
    "\<forall>i. 0 \<le> i \<and> i < j \<longrightarrow> free_strip s (st i)" "j < M \<longrightarrow> \<not> free_strip s (st j)"
    using takeWhile_py_range[of M "\<lambda>k. free_strip s (st k)"] by blast
  have "merge_scan s st dd (py_range M) 0 [] = Inr (dd * j, concat (map st (py_range j)))"
    unfolding merge_scan_takeWhile[OF assms(1) ing] j(3) using j(1) by (simp add: py_range_def)
  then show ?thesis using j(1,2,5,6) by blast
qed

lemma set_strip:
  "(r, c) \<in> set (strip d fr fc rs cs i) \<longleftrightarrow>
     (if d = (1, 0) then in_rect fr (fc + cs + i) rs 1 r c
      else if d = (- 1, 0) then in_rect fr (fc - 1 - i) rs 1 r c
      else if d = (0, 1) then in_rect (fr + rs + i) fc 1 cs r c
      else in_rect (fr - 1 - i) fc 1 cs r c)"
  by (simp add: strip_def set_area_cells in_rect_def)

lemma anchored_rect_in_grid:
  assumes i: "inv s" and g: "in_grid s fr fc"
    and a: "from_row (tile_at s fr fc) = fr" "from_column (tile_at s fr fc) = fc"
  shows "0 \<le> fr" "0 \<le> fc"
    "fr + row_span (tile_at s fr fc) \<le> row_number s"
    "fc + column_span (tile_at s fr fc) \<le> column_number s"
proof -
  note at = anchored_tile[OF i g a]
  let ?rs = "row_span (tile_at s fr fc)" and ?cs = "column_span (tile_at s fr fc)"
  show "0 \<le> fr" "0 \<le> fc" using g by (simp_all add: in_grid_def)
  have "in_rect fr fc ?rs ?cs (fr + ?rs - 1) (fc + ?cs - 1)" using at(3,4) by (simp add: in_rect_def)
  then have "in_grid s (fr + ?rs - 1) (fc + ?cs - 1)" using at(5,6) by blast
  then show "fr + ?rs \<le> row_number s" "fc + ?cs \<le> column_number s"
    by (simp_all add: in_grid_def)
qed

text \<open>What a growth request is granted, for the four directions at once.\<close>

lemma growth_facts:
  assumes i: "inv s" and g: "in_grid s fr fc"
    and a: "from_row (tile_at s fr fc) = fr" "from_column (tile_at s fr fc) = fc"
    and d: "unit_direction d"
    and grow: "n * (fst d + snd d) > 0"
  shows "\<exists>j. getTilesToMerge s d fr fc n =
               Inr ((fst d + snd d) * j,
                    concat (map (strip d fr fc (row_span (tile_at s fr fc)) (column_span (tile_at s fr fc)))
                             (py_range j))) \<and>
             0 \<le> j \<and>
             j \<le> min \<bar>n\<bar> (room s d fr fc (row_span (tile_at s fr fc)) (column_span (tile_at s fr fc))) \<and>
             (\<forall>i. 0 \<le> i \<and> i < j \<longrightarrow>
                free_strip s (strip d fr fc (row_span (tile_at s fr fc)) (column_span (tile_at s fr fc)) i)) \<and>
             (j < min \<bar>n\<bar> (room s d fr fc (row_span (tile_at s fr fc)) (column_span (tile_at s fr fc))) \<longrightarrow>
                \<not> free_strip s (strip d fr fc (row_span (tile_at s fr fc)) (column_span (tile_at s fr fc)) j)) \<and>
             (\<forall>i r c. 0 \<le> i \<and> i < j \<longrightarrow>
                (r, c) \<in> set (strip d fr fc (row_span (tile_at s fr fc)) (column_span (tile_at s fr fc)) i) \<longrightarrow>
                in_grid s r c)"
proof -
  let ?rs = "row_span (tile_at s fr fc)" and ?cs = "column_span (tile_at s fr fc)"
  note at = anchored_tile[OF i g a]
  note rg = anchored_rect_in_grid[OF i g a]
  have T: "heap s ! owner s fr fc = tile_at s fr fc" by (simp add: tile_at_def)
  define M where "M = min \<bar>n\<bar> (room s d fr fc ?rs ?cs)"
  have ing: "\<forall>k. 0 \<le> k \<and> k < M \<longrightarrow> (\<forall>(r, c) \<in> set (strip d fr fc ?rs ?cs k). in_grid s r c)"
  proof (intro allI impI ballI)
    fix k x assume k: "0 \<le> k \<and> k < M" and x: "x \<in> set (strip d fr fc ?rs ?cs k)"
    obtain r c where rc: "x = (r, c)" by (cases x)
    have kr: "k < room s d fr fc ?rs ?cs" using k by (simp add: M_def)
    consider (east) "d = (1, 0)" | (west) "d = (- 1, 0)" | (south) "d = (0, 1)" | (north) "d = (0, - 1)"
      using d by (auto simp: unit_direction_def)
    then have "in_grid s r c"
    proof cases
      case east
      then show ?thesis using x rc k kr rg at(3,4)
        by (simp add: set_strip room_def in_rect_def in_grid_def)
    next
      case west
      then show ?thesis using x rc k kr rg at(3,4)
        by (simp add: set_strip room_def in_rect_def in_grid_def)
    next
      case south
      then show ?thesis using x rc k kr rg at(3,4)
        by (simp add: set_strip room_def in_rect_def in_grid_def)
    next
      case north
      then show ?thesis using x rc k kr rg at(3,4)
        by (simp add: set_strip room_def in_rect_def in_grid_def)
    qed
    then show "case x of (r, c) \<Rightarrow> in_grid s r c" using rc by simp
  qed
  from scan_result[OF invD(3)[OF i] ing, of "fst d + snd d"] obtain j where
    j: "merge_scan s (strip d fr fc ?rs ?cs) (fst d + snd d) (py_range M) 0 [] =
          Inr ((fst d + snd d) * j, concat (map (strip d fr fc ?rs ?cs) (py_range j)))"
       "0 \<le> j" "j \<le> max 0 M"
       "\<forall>i. 0 \<le> i \<and> i < j \<longrightarrow> free_strip s (strip d fr fc ?rs ?cs i)"
       "j < M \<longrightarrow> \<not> free_strip s (strip d fr fc ?rs ?cs j)"
    by blast
  have M0: "0 \<le> M" using d rg grow unfolding M_def
    by (auto simp: unit_direction_def room_def)
  have code: "getTilesToMerge s d fr fc n =
          merge_scan s (strip d fr fc ?rs ?cs) (fst d + snd d) (py_range M) 0 []"
  proof -
    consider (east) "d = (1, 0)" | (west) "d = (- 1, 0)" | (south) "d = (0, 1)" | (north) "d = (0, - 1)"
      using d by (auto simp: unit_direction_def)
    then show ?thesis
    proof cases
      case east
      have n: "0 < n" using grow east by simp
      have s1: "column_strip 1 fr fc ?rs ?cs = strip (1, 0) fr fc ?rs ?cs"
        using column_strip_east by blast
      have "merge_bound s (1, 0) fr fc ?rs ?cs n = M"
        using n by (simp add: merge_bound_def M_def room_def east b2i_def Let_def algebra_simps)
      then show ?thesis using at(1) by (simp add: getTilesToMerge_def T Let_def east s1)
    next
      case west
      have n: "n < 0" using grow west by simp
      have s1: "column_strip (- 1) fr fc ?rs ?cs = strip (- 1, 0) fr fc ?rs ?cs"
        using column_strip_west by blast
      have "merge_bound s (- 1, 0) fr fc ?rs ?cs n * (- 1) = M"
        using n by (simp add: merge_bound_def M_def room_def west b2i_def Let_def)
      then show ?thesis using at(1) by (simp add: getTilesToMerge_def T Let_def west s1)
    next
      case south
      have n: "0 < n" using grow south by simp
      have s1: "row_strip 1 fr fc ?rs ?cs = strip (0, 1) fr fc ?rs ?cs"
        using row_strip_south by blast
      have "merge_bound s (0, 1) fr fc ?rs ?cs n = M"
        using n by (simp add: merge_bound_def M_def room_def south b2i_def Let_def algebra_simps)
      then show ?thesis using at(1) by (simp add: getTilesToMerge_def T Let_def south s1)
    next
      case north
      have n: "n < 0" using grow north by simp
      have s1: "row_strip (- 1) fr fc ?rs ?cs = strip (0, - 1) fr fc ?rs ?cs"
        using row_strip_north by blast
      have "merge_bound s (0, - 1) fr fc ?rs ?cs n * (- 1) = M"
        using n by (simp add: merge_bound_def M_def room_def north b2i_def Let_def)
      then show ?thesis using at(1) by (simp add: getTilesToMerge_def T Let_def north s1)
    qed
  qed
  have jM: "j \<le> M" using j(3) M0 by simp
  have cells_in: "\<forall>i r c. 0 \<le> i \<and> i < j \<longrightarrow> (r, c) \<in> set (strip d fr fc ?rs ?cs i) \<longrightarrow> in_grid s r c"
    using ing jM by fastforce
  show ?thesis
    using code j(1,2,4,5) jM cells_in unfolding M_def by (intro exI[of _ j]) simp
qed

section \<open>The rectangle after growth\<close>

lemma set_strips:
  "(r, c) \<in> set (concat (map (strip d fr fc rs cs) (py_range j))) \<longleftrightarrow>
     (\<exists>i. 0 \<le> i \<and> i < j \<and> (r, c) \<in> set (strip d fr fc rs cs i))"
  by (auto simp: set_py_range)

lemma strips_rect:
  assumes d: "unit_direction d" and j: "0 \<le> j" and sp: "1 \<le> rs" "1 \<le> cs"
  shows "(r, c) \<in> set (concat (map (strip d fr fc rs cs) (py_range j))) \<longleftrightarrow>
           in_rect (fr + (fst d + snd d) * j * b2i (snd d = - 1))
                   (fc + (fst d + snd d) * j * b2i (fst d = - 1))
                   (rs + (fst d + snd d) * j * snd d) (cs + (fst d + snd d) * j * fst d) r c \<and>
           \<not> in_rect fr fc rs cs r c"
proof -
  consider (east) "d = (1, 0)" | (west) "d = (- 1, 0)" | (south) "d = (0, 1)" | (north) "d = (0, - 1)"
    using d by (auto simp: unit_direction_def)
  then show ?thesis
  proof cases
    case east
    have "(\<exists>i. 0 \<le> i \<and> i < j \<and> fr \<le> r \<and> r < fr + rs \<and> c = fc + cs + i) \<longleftrightarrow>
          fr \<le> r \<and> r < fr + rs \<and> fc + cs \<le> c \<and> c < fc + cs + j"
    proof
      assume "\<exists>i. 0 \<le> i \<and> i < j \<and> fr \<le> r \<and> r < fr + rs \<and> c = fc + cs + i"
      then show "fr \<le> r \<and> r < fr + rs \<and> fc + cs \<le> c \<and> c < fc + cs + j" by auto
    next
      assume "fr \<le> r \<and> r < fr + rs \<and> fc + cs \<le> c \<and> c < fc + cs + j"
      then show "\<exists>i. 0 \<le> i \<and> i < j \<and> fr \<le> r \<and> r < fr + rs \<and> c = fc + cs + i"
        by (intro exI[of _ "c - fc - cs"]) auto
    qed
    then show ?thesis
      unfolding set_strips set_strip east in_rect_def b2i_def using sp by auto
  next
    case west
    have "(\<exists>i. 0 \<le> i \<and> i < j \<and> fr \<le> r \<and> r < fr + rs \<and> c = fc - 1 - i) \<longleftrightarrow>
          fr \<le> r \<and> r < fr + rs \<and> fc - j \<le> c \<and> c < fc"
    proof
      assume "\<exists>i. 0 \<le> i \<and> i < j \<and> fr \<le> r \<and> r < fr + rs \<and> c = fc - 1 - i"
      then show "fr \<le> r \<and> r < fr + rs \<and> fc - j \<le> c \<and> c < fc" by auto
    next
      assume "fr \<le> r \<and> r < fr + rs \<and> fc - j \<le> c \<and> c < fc"
      then show "\<exists>i. 0 \<le> i \<and> i < j \<and> fr \<le> r \<and> r < fr + rs \<and> c = fc - 1 - i"
        by (intro exI[of _ "fc - 1 - c"]) auto
    qed
    then show ?thesis
      unfolding set_strips set_strip west in_rect_def b2i_def using sp by auto
  next
    case south
    have "(\<exists>i. 0 \<le> i \<and> i < j \<and> fc \<le> c \<and> c < fc + cs \<and> r = fr + rs + i) \<longleftrightarrow>
          fc \<le> c \<and> c < fc + cs \<and> fr + rs \<le> r \<and> r < fr + rs + j"
    proof
      assume "\<exists>i. 0 \<le> i \<and> i < j \<and> fc \<le> c \<and> c < fc + cs \<and> r = fr + rs + i"
      then show "fc \<le> c \<and> c < fc + cs \<and> fr + rs \<le> r \<and> r < fr + rs + j" by auto
    next
      assume "fc \<le> c \<and> c < fc + cs \<and> fr + rs \<le> r \<and> r < fr + rs + j"
      then show "\<exists>i. 0 \<le> i \<and> i < j \<and> fc \<le> c \<and> c < fc + cs \<and> r = fr + rs + i"
        by (intro exI[of _ "r - fr - rs"]) auto
    qed
    then show ?thesis
      unfolding set_strips set_strip south in_rect_def b2i_def using sp by auto
  next
    case north
    have "(\<exists>i. 0 \<le> i \<and> i < j \<and> fc \<le> c \<and> c < fc + cs \<and> r = fr - 1 - i) \<longleftrightarrow>
          fc \<le> c \<and> c < fc + cs \<and> fr - j \<le> r \<and> r < fr"
    proof
      assume "\<exists>i. 0 \<le> i \<and> i < j \<and> fc \<le> c \<and> c < fc + cs \<and> r = fr - 1 - i"
      then show "fc \<le> c \<and> c < fc + cs \<and> fr - j \<le> r \<and> r < fr" by auto
    next
      assume "fc \<le> c \<and> c < fc + cs \<and> fr - j \<le> r \<and> r < fr"
      then show "\<exists>i. 0 \<le> i \<and> i < j \<and> fc \<le> c \<and> c < fc + cs \<and> r = fr - 1 - i"
        by (intro exI[of _ "fr - 1 - r"]) auto
    qed
    then show ?thesis
      unfolding set_strips set_strip north in_rect_def b2i_def using sp by auto
  qed
qed

lemma grown_rect:
  assumes d: "unit_direction d" and j: "0 \<le> j" and sp: "1 \<le> rs" "1 \<le> cs"
  shows "in_rect (fr + (fst d + snd d) * j * b2i (snd d = - 1))
                   (fc + (fst d + snd d) * j * b2i (fst d = - 1))
                   (rs + (fst d + snd d) * j * snd d) (cs + (fst d + snd d) * j * fst d) r c \<longleftrightarrow>
           (r, c) \<in> set (concat (map (strip d fr fc rs cs) (py_range j))) \<or> in_rect fr fc rs cs r c"
proof -
  have "in_rect fr fc rs cs r c \<Longrightarrow>
        in_rect (fr + (fst d + snd d) * j * b2i (snd d = - 1))
                   (fc + (fst d + snd d) * j * b2i (fst d = - 1))
                   (rs + (fst d + snd d) * j * snd d) (cs + (fst d + snd d) * j * fst d) r c"
    using d j by (auto simp: unit_direction_def in_rect_def b2i_def)
  then show ?thesis using strips_rect[OF d j sp, of r c fr fc] by blast
qed

lemma strips_Nil:
  assumes "1 \<le> rs" "1 \<le> cs" "0 \<le> j"
  shows "concat (map (strip d fr fc rs cs) (py_range j)) = [] \<longleftrightarrow> j = 0"
proof
  assume e: "concat (map (strip d fr fc rs cs) (py_range j)) = []"
  show "j = 0"
  proof (rule ccontr)
    assume "j \<noteq> 0"
    then have "0 \<in> set (py_range j)" using assms(3) by (simp add: set_py_range)
    then have "strip d fr fc rs cs 0 = []" using e by auto
    then show False using assms(1,2) by (simp add: strip_def area_cells_Nil split: if_splits)
  qed
next
  assume "j = 0"
  then show "concat (map (strip d fr fc rs cs) (py_range j)) = []" by (simp add: py_range_def)
qed

section \<open>Growing a tile\<close>

lemma free_count_facts:
  "int (free_count s d fr fc rs cs n) \<le> max 0 (min \<bar>n\<bar> (room s d fr fc rs cs))"
  "takeWhile (\<lambda>i. free_strip s (strip d fr fc rs cs i)) (py_range (min \<bar>n\<bar> (room s d fr fc rs cs)))
     = py_range (int (free_count s d fr fc rs cs n))"
  "\<forall>i. 0 \<le> i \<and> i < int (free_count s d fr fc rs cs n) \<longrightarrow> free_strip s (strip d fr fc rs cs i)"
  "int (free_count s d fr fc rs cs n) < min \<bar>n\<bar> (room s d fr fc rs cs) \<longrightarrow>
     \<not> free_strip s (strip d fr fc rs cs (int (free_count s d fr fc rs cs n)))"
proof -
  obtain j where j: "0 \<le> j" "j \<le> max 0 (min \<bar>n\<bar> (room s d fr fc rs cs))"
    "takeWhile (\<lambda>k. free_strip s (strip d fr fc rs cs k)) (py_range (min \<bar>n\<bar> (room s d fr fc rs cs))) = py_range j"
    "int (length (takeWhile (\<lambda>k. free_strip s (strip d fr fc rs cs k))
        (py_range (min \<bar>n\<bar> (room s d fr fc rs cs))))) = j"
    "\<forall>i. 0 \<le> i \<and> i < j \<longrightarrow> free_strip s (strip d fr fc rs cs i)"
    "j < min \<bar>n\<bar> (room s d fr fc rs cs) \<longrightarrow> \<not> free_strip s (strip d fr fc rs cs j)"
    using takeWhile_py_range[of "min \<bar>n\<bar> (room s d fr fc rs cs)" "\<lambda>k. free_strip s (strip d fr fc rs cs k)"]
    by blast
  have e: "int (free_count s d fr fc rs cs n) = j" using j(4) by (simp add: free_count_def)
  show "int (free_count s d fr fc rs cs n) \<le> max 0 (min \<bar>n\<bar> (room s d fr fc rs cs))"
    using j(2) e by simp
  show "takeWhile (\<lambda>i. free_strip s (strip d fr fc rs cs i)) (py_range (min \<bar>n\<bar> (room s d fr fc rs cs)))
     = py_range (int (free_count s d fr fc rs cs n))"
    using j(3) e by simp
  show "\<forall>i. 0 \<le> i \<and> i < int (free_count s d fr fc rs cs n) \<longrightarrow> free_strip s (strip d fr fc rs cs i)"
    using j(5) e by simp
  show "int (free_count s d fr fc rs cs n) < min \<bar>n\<bar> (room s d fr fc rs cs) \<longrightarrow>
     \<not> free_strip s (strip d fr fc rs cs (int (free_count s d fr fc rs cs n)))"
    using j(6) e by simp
qed

text \<open>
  The scan of \<^verbatim>\<open>__getTilesToMerge\<close> for a tile whose rectangle, with origin \<open>(fr, fc)\<close> and
  spans at least 1, lies in the grid.
\<close>

lemma growth_scan:
  fixes s :: "'w layout"
  assumes sh: "shape_ok s" and g: "in_grid s fr fc"
    and sp: "1 \<le> row_span (tile_at s fr fc)" "1 \<le> column_span (tile_at s fr fc)"
    and rg: "fr + row_span (tile_at s fr fc) \<le> row_number s"
            "fc + column_span (tile_at s fr fc) \<le> column_number s"
    and d: "unit_direction d"
    and grow: "n * (fst d + snd d) > 0"
  shows "getTilesToMerge s d fr fc n =
           Inr ((fst d + snd d) *
                  int (free_count s d fr fc (row_span (tile_at s fr fc)) (column_span (tile_at s fr fc)) n),
                concat (map (strip d fr fc (row_span (tile_at s fr fc)) (column_span (tile_at s fr fc)))
                  (py_range (int (free_count s d fr fc (row_span (tile_at s fr fc))
                                    (column_span (tile_at s fr fc)) n)))))"
    and "\<forall>i r c. 0 \<le> i \<and>
             i < int (free_count s d fr fc (row_span (tile_at s fr fc)) (column_span (tile_at s fr fc)) n) \<longrightarrow>
           (r, c) \<in> set (strip d fr fc (row_span (tile_at s fr fc)) (column_span (tile_at s fr fc)) i) \<longrightarrow>
           in_grid s r c"
    and "int (free_count s d fr fc (row_span (tile_at s fr fc)) (column_span (tile_at s fr fc)) n)
           \<le> min \<bar>n\<bar> (room s d fr fc (row_span (tile_at s fr fc)) (column_span (tile_at s fr fc)))"
proof -
  let ?rs = "row_span (tile_at s fr fc)" and ?cs = "column_span (tile_at s fr fc)"
  define k where "k = int (free_count s d fr fc ?rs ?cs n)"
  have get: "map_get (tile_map s) fr fc = Inr (owner s fr fc)" using sh g by (rule map_get_in_grid)
  have g0: "0 \<le> fr" "0 \<le> fc" using g by (simp_all add: in_grid_def)
  have T: "heap s ! owner s fr fc = tile_at s fr fc" by (simp add: tile_at_def)
  define M where "M = min \<bar>n\<bar> (room s d fr fc ?rs ?cs)"
  have ing: "\<forall>j. 0 \<le> j \<and> j < M \<longrightarrow> (\<forall>(r, c) \<in> set (strip d fr fc ?rs ?cs j). in_grid s r c)"
  proof (intro allI impI ballI)
    fix j x assume j: "0 \<le> j \<and> j < M" and x: "x \<in> set (strip d fr fc ?rs ?cs j)"
    obtain r c where rc: "x = (r, c)" by (cases x)
    have kr: "j < room s d fr fc ?rs ?cs" using j by (simp add: M_def)
    consider (east) "d = (1, 0)" | (west) "d = (- 1, 0)" | (south) "d = (0, 1)" | (north) "d = (0, - 1)"
      using d by (auto simp: unit_direction_def)
    then have "in_grid s r c"
    proof cases
      case east
      then show ?thesis using x rc j kr rg g0 sp
        by (simp add: set_strip room_def in_rect_def in_grid_def)
    next
      case west
      then show ?thesis using x rc j kr rg g0 sp
        by (simp add: set_strip room_def in_rect_def in_grid_def)
    next
      case south
      then show ?thesis using x rc j kr rg g0 sp
        by (simp add: set_strip room_def in_rect_def in_grid_def)
    next
      case north
      then show ?thesis using x rc j kr rg g0 sp
        by (simp add: set_strip room_def in_rect_def in_grid_def)
    qed
    then show "case x of (r, c) \<Rightarrow> in_grid s r c" using rc by simp
  qed
  have ing': "\<forall>j \<in> set (py_range M). \<forall>(r, c) \<in> set (strip d fr fc ?rs ?cs j). in_grid s r c"
    using ing by (simp add: set_py_range)
  have M0: "0 \<le> M" using d rg g0 grow unfolding M_def
    by (auto simp: unit_direction_def room_def)
  have code: "getTilesToMerge s d fr fc n =
          merge_scan s (strip d fr fc ?rs ?cs) (fst d + snd d) (py_range M) 0 []"
  proof -
    consider (east) "d = (1, 0)" | (west) "d = (- 1, 0)" | (south) "d = (0, 1)" | (north) "d = (0, - 1)"
      using d by (auto simp: unit_direction_def)
    then show ?thesis
    proof cases
      case east
      have n: "0 < n" using grow east by simp
      have s1: "column_strip 1 fr fc ?rs ?cs = strip (1, 0) fr fc ?rs ?cs"
        using column_strip_east by blast
      have "merge_bound s (1, 0) fr fc ?rs ?cs n = M"
        using n by (simp add: merge_bound_def M_def room_def east b2i_def Let_def algebra_simps)
      then show ?thesis using get by (simp add: getTilesToMerge_def T Let_def east s1)
    next
      case west
      have n: "n < 0" using grow west by simp
      have s1: "column_strip (- 1) fr fc ?rs ?cs = strip (- 1, 0) fr fc ?rs ?cs"
        using column_strip_west by blast
      have "merge_bound s (- 1, 0) fr fc ?rs ?cs n * (- 1) = M"
        using n by (simp add: merge_bound_def M_def room_def west b2i_def Let_def)
      then show ?thesis using get by (simp add: getTilesToMerge_def T Let_def west s1)
    next
      case south
      have n: "0 < n" using grow south by simp
      have s1: "row_strip 1 fr fc ?rs ?cs = strip (0, 1) fr fc ?rs ?cs"
        using row_strip_south by blast
      have "merge_bound s (0, 1) fr fc ?rs ?cs n = M"
        using n by (simp add: merge_bound_def M_def room_def south b2i_def Let_def algebra_simps)
      then show ?thesis using get by (simp add: getTilesToMerge_def T Let_def south s1)
    next
      case north
      have n: "n < 0" using grow north by simp
      have s1: "row_strip (- 1) fr fc ?rs ?cs = strip (0, - 1) fr fc ?rs ?cs"
        using row_strip_north by blast
      have "merge_bound s (0, - 1) fr fc ?rs ?cs n * (- 1) = M"
        using n by (simp add: merge_bound_def M_def room_def north b2i_def Let_def)
      then show ?thesis using get by (simp add: getTilesToMerge_def T Let_def north s1)
    qed
  qed
  note fc = free_count_facts[of s d fr fc ?rs ?cs n, folded M_def k_def]
  have len: "int (length (takeWhile (\<lambda>i. free_strip s (strip d fr fc ?rs ?cs i)) (py_range M))) = k"
    by (simp add: k_def free_count_def M_def)
  have "merge_scan s (strip d fr fc ?rs ?cs) (fst d + snd d) (py_range M) 0 [] =
          Inr ((fst d + snd d) * k, concat (map (strip d fr fc ?rs ?cs) (py_range k)))"
    unfolding merge_scan_takeWhile[OF sh ing'] len unfolding fc(2) by simp
  then show "getTilesToMerge s d fr fc n =
           Inr ((fst d + snd d) * int (free_count s d fr fc ?rs ?cs n),
                concat (map (strip d fr fc ?rs ?cs) (py_range (int (free_count s d fr fc ?rs ?cs n)))))"
    using code by (simp add: k_def)
  have kM: "k \<le> M" using fc(1) M0 by simp
  then show "int (free_count s d fr fc ?rs ?cs n) \<le> min \<bar>n\<bar> (room s d fr fc ?rs ?cs)"
    by (simp add: k_def M_def)
  show "\<forall>i r c. 0 \<le> i \<and> i < int (free_count s d fr fc ?rs ?cs n) \<longrightarrow>
           (r, c) \<in> set (strip d fr fc ?rs ?cs i) \<longrightarrow> in_grid s r c"
    using ing kM unfolding k_def by fastforce
qed

text \<open>What \<^verbatim>\<open>resizeTile\<close> does with a growth request.\<close>

lemma resize_growth_effect:
  fixes s :: "'w layout"
  assumes sh: "shape_ok s" and g: "in_grid s fr fc"
    and sp: "1 \<le> row_span (tile_at s fr fc)" "1 \<le> column_span (tile_at s fr fc)"
    and rg: "fr + row_span (tile_at s fr fc) \<le> row_number s"
            "fc + column_span (tile_at s fr fc) \<le> column_number s"
    and d: "unit_direction d"
    and grow: "n * (fst d + snd d) > 0"
    and k: "k = int (free_count s d fr fc (row_span (tile_at s fr fc)) (column_span (tile_at s fr fc)) n)"
  shows "k = 0 \<Longrightarrow> resizeTile s d fr fc n = (None, s)"
    and "0 < k \<Longrightarrow>
          \<exists>m. shape_ok (s\<lparr>tile_map := m\<rparr>) \<and>
              (\<forall>r c. in_grid s r c \<longrightarrow>
                 owner (s\<lparr>tile_map := m\<rparr>) r c =
                   (if (r, c) \<in> set (concat (map (strip d fr fc (row_span (tile_at s fr fc))
                                      (column_span (tile_at s fr fc))) (py_range k)))
                    then owner s fr fc else owner s r c)) \<and>
              resizeTile s d fr fc n =
                (case index_of (couple_tile s) (owner s fr fc) of
                   None \<Rightarrow>
                     (Some ValueError,
                      s\<lparr>tile_map := m,
                        heap := (heap s)[owner s fr fc :=
                          updateSize (fr + (fst d + snd d) * k * b2i (snd d = - 1))
                            (fc + (fst d + snd d) * k * b2i (fst d = - 1))
                            (row_span (tile_at s fr fc) + (fst d + snd d) * k * snd d)
                            (column_span (tile_at s fr fc) + (fst d + snd d) * k * fst d)
                            (tile_at s fr fc)]\<rparr>)
                 | Some ix \<Rightarrow>
                     (if length (couple_widget s) \<le> ix
                      then (Some IndexError,
                        s\<lparr>tile_map := m,
                          heap := (heap s)[owner s fr fc :=
                            updateSize (fr + (fst d + snd d) * k * b2i (snd d = - 1))
                              (fc + (fst d + snd d) * k * b2i (fst d = - 1))
                              (row_span (tile_at s fr fc) + (fst d + snd d) * k * snd d)
                              (column_span (tile_at s fr fc) + (fst d + snd d) * k * fst d)
                              (tile_at s fr fc)]\<rparr>)
                      else (None,
                        s\<lparr>tile_map := m,
                          heap := (heap s)[owner s fr fc :=
                            updateSize (fr + (fst d + snd d) * k * b2i (snd d = - 1))
                              (fc + (fst d + snd d) * k * b2i (fst d = - 1))
                              (row_span (tile_at s fr fc) + (fst d + snd d) * k * snd d)
                              (column_span (tile_at s fr fc) + (fst d + snd d) * k * fst d)
                              (tile_at s fr fc)],
                          tileResized := tileResized s @
                            [(couple_widget s ! ix,
                              fr + (fst d + snd d) * k * b2i (snd d = - 1),
                              fc + (fst d + snd d) * k * b2i (fst d = - 1),
                              row_span (tile_at s fr fc) + (fst d + snd d) * k * snd d,
                              column_span (tile_at s fr fc) + (fst d + snd d) * k * fst d)]\<rparr>)))"
proof -
  let ?t = "owner s fr fc"
  let ?T = "tile_at s fr fc"
  define cells where "cells = concat (map (strip d fr fc (row_span ?T) (column_span ?T)) (py_range k))"
  define T where "T = tile_at s fr fc"
  note gs = growth_scan[OF sh g sp rg d grow, folded k, folded cells_def]
  have k0: "0 \<le> k" using k by simp
  have get: "map_get (tile_map s) fr fc = Inr ?t" using sh g by (rule map_get_in_grid)
  have hT: "heap s ! ?t = T" by (simp add: T_def tile_at_def)
  have ne: "cells = [] \<longleftrightarrow> k = 0" unfolding cells_def using strips_Nil[OF sp k0] .
  show "k = 0 \<Longrightarrow> resizeTile s d fr fc n = (None, s)"
    using get gs(1) grow ne by (simp add: resizeTile_def Let_def)
  assume kp: "0 < k"
  then have cne: "cells \<noteq> []" using ne by simp
  have cin: "\<forall>(r, c) \<in> set cells. in_grid s r c"
    using gs(2) unfolding cells_def by (auto simp: set_py_range)
  from merge_loop_effect[OF sh cin, of ?t] obtain m where
    m1: "merge_loop s ?t cells = (None, s\<lparr>tile_map := m\<rparr>)" and
    m2: "shape_ok (s\<lparr>tile_map := m\<rparr>)" and
    m3: "\<forall>r c. in_grid s r c \<longrightarrow>
           owner (s\<lparr>tile_map := m\<rparr>) r c = (if (r, c) \<in> set cells then ?t else owner s r c)"
    by blast
  have res: "resizeTile s d fr fc n =
                (case index_of (couple_tile s) ?t of
                   None \<Rightarrow>
                     (Some ValueError,
                      s\<lparr>tile_map := m,
                        heap := (heap s)[?t :=
                          updateSize (fr + (fst d + snd d) * k * b2i (snd d = - 1))
                            (fc + (fst d + snd d) * k * b2i (fst d = - 1))
                            (row_span T + (fst d + snd d) * k * snd d)
                            (column_span T + (fst d + snd d) * k * fst d) T]\<rparr>)
                 | Some ix \<Rightarrow>
                     (if length (couple_widget s) \<le> ix
                      then (Some IndexError,
                        s\<lparr>tile_map := m,
                          heap := (heap s)[?t :=
                            updateSize (fr + (fst d + snd d) * k * b2i (snd d = - 1))
                              (fc + (fst d + snd d) * k * b2i (fst d = - 1))
                              (row_span T + (fst d + snd d) * k * snd d)
                              (column_span T + (fst d + snd d) * k * fst d) T]\<rparr>)
                      else (None,
                        s\<lparr>tile_map := m,
                          heap := (heap s)[?t :=
                            updateSize (fr + (fst d + snd d) * k * b2i (snd d = - 1))
                              (fc + (fst d + snd d) * k * b2i (fst d = - 1))
                              (row_span T + (fst d + snd d) * k * snd d)
                              (column_span T + (fst d + snd d) * k * fst d) T],
                          tileResized := tileResized s @
                            [(couple_widget s ! ix,
                              fr + (fst d + snd d) * k * b2i (snd d = - 1),
                              fc + (fst d + snd d) * k * b2i (fst d = - 1),
                              row_span T + (fst d + snd d) * k * snd d,
                              column_span T + (fst d + snd d) * k * fst d)]\<rparr>)))"
    using get gs(1) grow cne m1 hT
    by (simp add: resizeTile_def Let_def mergeTiles_def split: option.split)
  show "\<exists>m. shape_ok (s\<lparr>tile_map := m\<rparr>) \<and>
              (\<forall>r c. in_grid s r c \<longrightarrow>
                 owner (s\<lparr>tile_map := m\<rparr>) r c =
                   (if (r, c) \<in> set (concat (map (strip d fr fc (row_span (tile_at s fr fc))
                                      (column_span (tile_at s fr fc))) (py_range k)))
                    then owner s fr fc else owner s r c)) \<and>
              resizeTile s d fr fc n =
                (case index_of (couple_tile s) (owner s fr fc) of
                   None \<Rightarrow>
                     (Some ValueError,
                      s\<lparr>tile_map := m,
                        heap := (heap s)[owner s fr fc :=
                          updateSize (fr + (fst d + snd d) * k * b2i (snd d = - 1))
                            (fc + (fst d + snd d) * k * b2i (fst d = - 1))
                            (row_span (tile_at s fr fc) + (fst d + snd d) * k * snd d)
                            (column_span (tile_at s fr fc) + (fst d + snd d) * k * fst d)
                            (tile_at s fr fc)]\<rparr>)
                 | Some ix \<Rightarrow>
                     (if length (couple_widget s) \<le> ix
                      then (Some IndexError,
                        s\<lparr>tile_map := m,
                          heap := (heap s)[owner s fr fc :=
                            updateSize (fr + (fst d + snd d) * k * b2i (snd d = - 1))
                              (fc + (fst d + snd d) * k * b2i (fst d = - 1))
                              (row_span (tile_at s fr fc) + (fst d + snd d) * k * snd d)
                              (column_span (tile_at s fr fc) + (fst d + snd d) * k * fst d)
                              (tile_at s fr fc)]\<rparr>)
                      else (None,
                        s\<lparr>tile_map := m,
                          heap := (heap s)[owner s fr fc :=
                            updateSize (fr + (fst d + snd d) * k * b2i (snd d = - 1))
                              (fc + (fst d + snd d) * k * b2i (fst d = - 1))
                              (row_span (tile_at s fr fc) + (fst d + snd d) * k * snd d)
                              (column_span (tile_at s fr fc) + (fst d + snd d) * k * fst d)
                              (tile_at s fr fc)],
                          tileResized := tileResized s @
                            [(couple_widget s ! ix,
                              fr + (fst d + snd d) * k * b2i (snd d = - 1),
                              fc + (fst d + snd d) * k * b2i (fst d = - 1),
                              row_span (tile_at s fr fc) + (fst d + snd d) * k * snd d,
                              column_span (tile_at s fr fc) + (fst d + snd d) * k * fst d)]\<rparr>)))"
    using m2 m3 res unfolding cells_def T_def by blast
qed

section \<open>Growth: claim C2\<close>

lemma unit_direction_abs:
  assumes "unit_direction d"
  shows "(fst d + snd d) * k * snd d = k * \<bar>snd d\<bar>" "(fst d + snd d) * k * fst d = k * \<bar>fst d\<bar>"
  using assms by (auto simp: unit_direction_def)

lemma placed_okD:
  assumes "placed_ok s (owner s fr fc)"
    and "from_row (tile_at s fr fc) = fr" "from_column (tile_at s fr fc) = fc"
  shows "1 \<le> row_span (tile_at s fr fc)" "1 \<le> column_span (tile_at s fr fc)"
    "fr + row_span (tile_at s fr fc) \<le> row_number s"
    "fc + column_span (tile_at s fr fc) \<le> column_number s"
  using assms by (simp_all add: placed_ok_def tile_at_def)

text \<open>
  Claim C2 does not hold for every growth request: \<open>addWidget\<close> accepts a rectangle with a
  negative span and, when the other span exceeds 1, gives the tile those spans. On a 2 by
  2 grid, widget 7 placed at (0, 0) with spans -3 and 2 is accepted; a request to grow its
  tile south by 1 then scans row -3, which the map does not have, and both
  \<open>getTilesToMerge\<close> and \<open>resizeTile\<close> end with \<^verbatim>\<open>IndexError\<close>: nothing is granted.
\<close>

theorem growth_counterexample:
  "fst (addWidget (snd (init 2 2 :: py_error option \<times> nat layout)) 7 0 0 (- 3) 2) = None \<and>
   in_grid (snd (addWidget (snd (init 2 2 :: py_error option \<times> nat layout)) 7 0 0 (- 3) 2)) 0 0 \<and>
   from_row (tile_at (snd (addWidget (snd (init 2 2 :: py_error option \<times> nat layout)) 7 0 0 (- 3) 2)) 0 0) = 0 \<and>
   from_column (tile_at (snd (addWidget (snd (init 2 2 :: py_error option \<times> nat layout)) 7 0 0 (- 3) 2)) 0 0) = 0 \<and>
   getTilesToMerge (snd (addWidget (snd (init 2 2 :: py_error option \<times> nat layout)) 7 0 0 (- 3) 2))
     (0, 1) 0 0 1 = Inl IndexError \<and>
   fst (resizeTile (snd (addWidget (snd (init 2 2 :: py_error option \<times> nat layout)) 7 0 0 (- 3) 2))
     (0, 1) 0 0 1) = Some IndexError"
  by code_simp

text \<open>
  Claim C2, amended. The request is addressed to a cell \<open>(fr, fc)\<close> of the grid that is the
  origin of its tile, the tile has spans at least 1 and its rectangle lies in the grid, the
  direction is one of the four unit directions and the request is a growth request. Then
  the count granted by \<open>getTilesToMerge\<close> (signed by the direction) is \<open>free_count\<close>: the
  number of consecutive free strips beyond the edge that faces the direction, among the
  first \<open>min \<bar>n\<bar> room\<close>. Every strip before that count is free, and when the count is
  below \<open>min \<bar>n\<bar> room\<close> the strip at the count holds a filled cell. After \<open>resizeTile\<close>
  the span of the tile along the axis of the direction has grown by exactly that count and
  the other span is unchanged; when the count is 0 the state is unchanged.
\<close>

theorem growth_granted:
  fixes s :: "'w layout"
  assumes sh: "shape_ok s" and g: "in_grid s fr fc"
    and tl: "owner s fr fc < length (heap s)"
    and a: "from_row (tile_at s fr fc) = fr" "from_column (tile_at s fr fc) = fc"
    and po: "placed_ok s (owner s fr fc)"
    and d: "unit_direction d"
    and grow: "n * (fst d + snd d) > 0"
    and rs: "rs = row_span (tile_at s fr fc)" and cs: "cs = column_span (tile_at s fr fc)"
    and k: "k = int (free_count s d fr fc rs cs n)"
  shows "getTilesToMerge s d fr fc n =
           Inr ((fst d + snd d) * k, concat (map (strip d fr fc rs cs) (py_range k))) \<and>
         0 \<le> k \<and> k \<le> min \<bar>n\<bar> (room s d fr fc rs cs) \<and>
         (\<forall>i. 0 \<le> i \<and> i < k \<longrightarrow> free_strip s (strip d fr fc rs cs i)) \<and>
         (k < min \<bar>n\<bar> (room s d fr fc rs cs) \<longrightarrow> \<not> free_strip s (strip d fr fc rs cs k)) \<and>
         row_span (tile_at (snd (resizeTile s d fr fc n)) fr fc) = rs + k * \<bar>snd d\<bar> \<and>
         column_span (tile_at (snd (resizeTile s d fr fc n)) fr fc) = cs + k * \<bar>fst d\<bar> \<and>
         (k = 0 \<longrightarrow> resizeTile s d fr fc n = (None, s))"
proof -
  let ?t = "owner s fr fc"
  note p = placed_okD[OF po a]
  have k': "k = int (free_count s d fr fc (row_span (tile_at s fr fc)) (column_span (tile_at s fr fc)) n)"
    using k rs cs by simp
  note gs = growth_scan[OF sh g p d grow, folded rs cs, folded k]
  note fcf = free_count_facts[of s d fr fc rs cs n, folded k]
  note eff = resize_growth_effect[OF sh g p d grow k', folded rs cs]
  have k0: "0 \<le> k" using k by simp
  have zero: "k = 0 \<longrightarrow> resizeTile s d fr fc n = (None, s)" using eff(1) by blast
  have spans: "row_span (tile_at (snd (resizeTile s d fr fc n)) fr fc) = rs + k * \<bar>snd d\<bar> \<and>
               column_span (tile_at (snd (resizeTile s d fr fc n)) fr fc) = cs + k * \<bar>fst d\<bar>"
  proof (cases "k = 0")
    case True
    then show ?thesis using zero rs cs by simp
  next
    case False
    then have kp: "0 < k" using k0 by simp
    define S where "S = set (concat (map (strip d fr fc rs cs) (py_range k)))"
    define T' where "T' = updateSize (fr + (fst d + snd d) * k * b2i (snd d = - 1))
                            (fc + (fst d + snd d) * k * b2i (fst d = - 1))
                            (rs + (fst d + snd d) * k * snd d)
                            (cs + (fst d + snd d) * k * fst d)
                            (tile_at s fr fc)"
    from eff(2)[OF kp, folded S_def T'_def] obtain m where
      m3: "\<forall>r c. in_grid s r c \<longrightarrow>
             owner (s\<lparr>tile_map := m\<rparr>) r c = (if (r, c) \<in> S then ?t else owner s r c)" and
      res: "resizeTile s d fr fc n =
              (case index_of (couple_tile s) ?t of
                 None \<Rightarrow> (Some ValueError, s\<lparr>tile_map := m, heap := (heap s)[?t := T']\<rparr>)
               | Some ix \<Rightarrow>
                   (if length (couple_widget s) \<le> ix
                    then (Some IndexError, s\<lparr>tile_map := m, heap := (heap s)[?t := T']\<rparr>)
                    else (None, s\<lparr>tile_map := m, heap := (heap s)[?t := T'],
                            tileResized := tileResized s @
                              [(couple_widget s ! ix,
                                fr + (fst d + snd d) * k * b2i (snd d = - 1),
                                fc + (fst d + snd d) * k * b2i (fst d = - 1),
                                rs + (fst d + snd d) * k * snd d,
                                cs + (fst d + snd d) * k * fst d)]\<rparr>)))"
      by blast
    have o: "owner (s\<lparr>tile_map := m\<rparr>) fr fc = ?t" using m3 g by simp
    have "tile_at (snd (resizeTile s d fr fc n)) fr fc = T'"
      using o tl unfolding res by (simp add: tile_at_def owner_def split: option.split)
    then show ?thesis
      by (simp add: T'_def updateSize_def unit_direction_abs[OF d])
  qed
  show ?thesis using gs(1,3) k0 fcf(3,4) spans zero by simp
qed

theorem growth_granted_witness:
  "shape_ok (snd (addWidget (snd (addWidget (snd (init 1 4 :: py_error option \<times> nat layout)) 7 0 0 1 1)) 8 0 2 1 1)) \<and>
   placed_ok (snd (addWidget (snd (addWidget (snd (init 1 4 :: py_error option \<times> nat layout)) 7 0 0 1 1)) 8 0 2 1 1))
     (owner (snd (addWidget (snd (addWidget (snd (init 1 4 :: py_error option \<times> nat layout)) 7 0 0 1 1)) 8 0 2 1 1)) 0 0) \<and>
   free_count (snd (addWidget (snd (addWidget (snd (init 1 4 :: py_error option \<times> nat layout)) 7 0 0 1 1)) 8 0 2 1 1))
     (1, 0) 0 0 1 1 3 = 1 \<and>
   getTilesToMerge (snd (addWidget (snd (addWidget (snd (init 1 4 :: py_error option \<times> nat layout)) 7 0 0 1 1)) 8 0 2 1 1))
     (1, 0) 0 0 3 = Inr (1, [(0, 1)]) \<and>
   column_span (tile_at (snd (resizeTile
       (snd (addWidget (snd (addWidget (snd (init 1 4 :: py_error option \<times> nat layout)) 7 0 0 1 1)) 8 0 2 1 1))
       (1, 0) 0 0 3)) 0 0) = 2 \<and>
   row_span (tile_at (snd (resizeTile
       (snd (addWidget (snd (addWidget (snd (init 1 4 :: py_error option \<times> nat layout)) 7 0 0 1 1)) 8 0 2 1 1))
       (1, 0) 0 0 3)) 0 0) = 1"
proof -
  let ?g = "snd (init 1 4 :: py_error option \<times> nat layout)"
  let ?s = "snd (addWidget (snd (addWidget ?g 7 0 0 1 1)) 8 0 2 1 1)"
  have sh: "shape_ok ?s" by code_simp
  have g: "in_grid ?s 0 0" by code_simp
  have tl: "owner ?s 0 0 < length (heap ?s)" by code_simp
  have a: "from_row (tile_at ?s 0 0) = 0" "from_column (tile_at ?s 0 0) = 0" by code_simp+
  have po: "placed_ok ?s (owner ?s 0 0)" by code_simp
  have d: "unit_direction (1, 0)" by (simp add: unit_direction_def)
  have grow: "(3::int) * (fst (1::int, 0::int) + snd (1::int, 0::int)) > 0" by simp
  have rs: "1 = row_span (tile_at ?s 0 0)" by code_simp
  have cs: "1 = column_span (tile_at ?s 0 0)" by code_simp
  have k: "1 = int (free_count ?s (1, 0) 0 0 1 1 3)" by code_simp
  have fc1: "free_count ?s (1, 0) 0 0 1 1 3 = 1" using k by simp
  have st: "concat (map (strip (1, 0) 0 0 1 1) (py_range 1)) = [(0, 1)]" by code_simp
  note t = growth_granted[OF sh g tl a po d grow rs cs k]
  have t1: "getTilesToMerge ?s (1, 0) 0 0 3 = Inr (1, [(0, 1)])"
    using t st by simp
  have t2: "column_span (tile_at (snd (resizeTile ?s (1, 0) 0 0 3)) 0 0) = 2"
    using t by simp
  have t3: "row_span (tile_at (snd (resizeTile ?s (1, 0) 0 0 3)) 0 0) = 1"
    using t by simp
  show ?thesis using sh po fc1 t1 t2 t3 by simp
qed

section \<open>Resizing an unfilled tile: claim C8\<close>

lemma unfilled_unregistered:
  assumes i: "inv s" and g: "in_grid s fr fc" and u: "\<not> filled (tile_at s fr fc)"
  shows "index_of (couple_tile s) (owner s fr fc) = None"
proof -
  have "owner s fr fc \<notin> set (couple_tile s)"
  proof
    assume "owner s fr fc \<in> set (couple_tile s)"
    then have "filled (heap s ! owner s fr fc)" using registry_okD(4)[OF invD(2)[OF i]] by blast
    then show False using u by (simp add: tile_at_def)
  qed
  then show ?thesis by (simp add: index_of_None)
qed

text \<open>
  Claim C8 does not hold for every requested count: on a freshly constructed 2 by 2 grid
  the tile at (0, 0) is unfilled, and the request to grow it east by 1 merges cell (0, 1)
  into it and then fails with \<^verbatim>\<open>ValueError\<close>, because \<^verbatim>\<open>list.index\<close> does not find the
  tile among the registered tiles.
\<close>

theorem resize_unfilled_counterexample:
  "in_grid (snd (init 2 2 :: py_error option \<times> nat layout)) 0 0 \<and>
   \<not> filled (tile_at (snd (init 2 2 :: py_error option \<times> nat layout)) 0 0) \<and>
   fst (resizeTile (snd (init 2 2 :: py_error option \<times> nat layout)) (1, 0) 0 0 1) = Some ValueError \<and>
   owner (snd (resizeTile (snd (init 2 2 :: py_error option \<times> nat layout)) (1, 0) 0 0 1)) 0 1 =
     owner (snd (init 2 2 :: py_error option \<times> nat layout)) 0 0"
  by code_simp

text \<open>
  Claim C8, amended. In a state that satisfies the invariant, a request in one of the four
  unit directions addressed to a cell of the grid whose tile is unfilled (a unit tile)
  returns without error and with the state unchanged when it is a shrink request, and when
  it is a growth request for which no strip is free (\<open>free_count\<close> is 0). A growth request
  for which some strip is free merges the free strips into the tile, which takes the grown
  spans, and then ends with \<^verbatim>\<open>ValueError\<close>: the tile is not registered, and no signal is
  emitted.
\<close>

theorem resize_unfilled:
  fixes s :: "'w layout"
  assumes i: "inv s" and g: "in_grid s fr fc"
    and u: "\<not> filled (tile_at s fr fc)"
    and d: "unit_direction d"
  shows "(n * (fst d + snd d) \<le> 0 \<longrightarrow> resizeTile s d fr fc n = (None, s)) \<and>
         (n * (fst d + snd d) > 0 \<and> free_count s d fr fc 1 1 n = 0 \<longrightarrow>
            resizeTile s d fr fc n = (None, s)) \<and>
         (n * (fst d + snd d) > 0 \<and> free_count s d fr fc 1 1 n > 0 \<longrightarrow>
            fst (resizeTile s d fr fc n) = Some ValueError \<and>
            tileResized (snd (resizeTile s d fr fc n)) = tileResized s \<and>
            row_span (tile_at (snd (resizeTile s d fr fc n)) fr fc) =
              1 + int (free_count s d fr fc 1 1 n) * \<bar>snd d\<bar> \<and>
            column_span (tile_at (snd (resizeTile s d fr fc n)) fr fc) =
              1 + int (free_count s d fr fc 1 1 n) * \<bar>fst d\<bar>)"
proof -
  let ?t = "owner s fr fc"
  let ?T = "tile_at s fr fc"
  note ut = unit_tile_at[OF invD(1)[OF i] g u]
  note at = anchored_tile[OF i g ut(1,2)]
  note rg = anchored_rect_in_grid[OF i g ut(1,2)]
  have nr: "index_of (couple_tile s) ?t = None" using unfilled_unregistered[OF i g u] .
  have shrink: "n * (fst d + snd d) \<le> 0 \<longrightarrow> resizeTile s d fr fc n = (None, s)"
  proof
    assume sh: "n * (fst d + snd d) \<le> 0"
    from resize_shrink_effect[OF i g ut(1,2) d sh] obtain k cells where
      e0: "cells = [] \<longrightarrow> resizeTile s d fr fc n = (None, s)" and
      e1: "cells \<noteq> [] \<longrightarrow> filled ?T"
      by blast
    show "resizeTile s d fr fc n = (None, s)" using e0 e1 u by blast
  qed
  have grow0: "n * (fst d + snd d) > 0 \<and> free_count s d fr fc 1 1 n = 0 \<longrightarrow>
            resizeTile s d fr fc n = (None, s)"
  proof
    assume h: "n * (fst d + snd d) > 0 \<and> free_count s d fr fc 1 1 n = 0"
    then have gr: "n * (fst d + snd d) > 0" by simp
    have k: "0 = int (free_count s d fr fc (row_span ?T) (column_span ?T) n)"
      using h ut(3,4) by simp
    show "resizeTile s d fr fc n = (None, s)"
      using resize_growth_effect(1)[OF invD(3)[OF i] g at(3,4) rg(3,4) d gr k] by simp
  qed
  have grow1: "n * (fst d + snd d) > 0 \<and> free_count s d fr fc 1 1 n > 0 \<longrightarrow>
            fst (resizeTile s d fr fc n) = Some ValueError \<and>
            tileResized (snd (resizeTile s d fr fc n)) = tileResized s \<and>
            row_span (tile_at (snd (resizeTile s d fr fc n)) fr fc) =
              1 + int (free_count s d fr fc 1 1 n) * \<bar>snd d\<bar> \<and>
            column_span (tile_at (snd (resizeTile s d fr fc n)) fr fc) =
              1 + int (free_count s d fr fc 1 1 n) * \<bar>fst d\<bar>"
  proof
    assume h: "n * (fst d + snd d) > 0 \<and> free_count s d fr fc 1 1 n > 0"
    then have gr: "n * (fst d + snd d) > 0" by simp
    define k where "k = int (free_count s d fr fc 1 1 n)"
    have k: "k = int (free_count s d fr fc (row_span ?T) (column_span ?T) n)"
      using ut(3,4) by (simp add: k_def)
    have kp: "0 < k" using h by (simp add: k_def)
    define S where "S = set (concat (map (strip d fr fc (row_span ?T) (column_span ?T)) (py_range k)))"
    define T' where "T' = updateSize (fr + (fst d + snd d) * k * b2i (snd d = - 1))
                            (fc + (fst d + snd d) * k * b2i (fst d = - 1))
                            (row_span ?T + (fst d + snd d) * k * snd d)
                            (column_span ?T + (fst d + snd d) * k * fst d) ?T"
    from resize_growth_effect(2)[OF invD(3)[OF i] g at(3,4) rg(3,4) d gr k kp, folded S_def T'_def]
    obtain m where
      m3: "\<forall>r c. in_grid s r c \<longrightarrow>
             owner (s\<lparr>tile_map := m\<rparr>) r c = (if (r, c) \<in> S then ?t else owner s r c)" and
      res: "resizeTile s d fr fc n =
              (case index_of (couple_tile s) ?t of
                 None \<Rightarrow> (Some ValueError, s\<lparr>tile_map := m, heap := (heap s)[?t := T']\<rparr>)
               | Some ix \<Rightarrow>
                   (if length (couple_widget s) \<le> ix
                    then (Some IndexError, s\<lparr>tile_map := m, heap := (heap s)[?t := T']\<rparr>)
                    else (None, s\<lparr>tile_map := m, heap := (heap s)[?t := T'],
                            tileResized := tileResized s @
                              [(couple_widget s ! ix,
                                fr + (fst d + snd d) * k * b2i (snd d = - 1),
                                fc + (fst d + snd d) * k * b2i (fst d = - 1),
                                row_span ?T + (fst d + snd d) * k * snd d,
                                column_span ?T + (fst d + snd d) * k * fst d)]\<rparr>)))"
      by blast
    have res': "resizeTile s d fr fc n =
                  (Some ValueError, s\<lparr>tile_map := m, heap := (heap s)[?t := T']\<rparr>)"
      using res nr by simp
    have o: "owner (s\<lparr>tile_map := m\<rparr>) fr fc = ?t" using m3 g by simp
    have ta: "tile_at (snd (resizeTile s d fr fc n)) fr fc = T'"
      using o at(2) unfolding res' by (simp add: tile_at_def owner_def)
    show "fst (resizeTile s d fr fc n) = Some ValueError \<and>
            tileResized (snd (resizeTile s d fr fc n)) = tileResized s \<and>
            row_span (tile_at (snd (resizeTile s d fr fc n)) fr fc) =
              1 + int (free_count s d fr fc 1 1 n) * \<bar>snd d\<bar> \<and>
            column_span (tile_at (snd (resizeTile s d fr fc n)) fr fc) =
              1 + int (free_count s d fr fc 1 1 n) * \<bar>fst d\<bar>"
      unfolding ta unfolding res'
      by (simp add: T'_def updateSize_def unit_direction_abs[OF d] ut(3,4) k_def)
  qed
  show ?thesis using shrink grow0 grow1 by blast
qed

theorem resize_unfilled_witness:
  "inv (snd (addWidget (snd (init 2 2 :: py_error option \<times> nat layout)) 8 0 1 1 1)) \<and>
   in_grid (snd (addWidget (snd (init 2 2 :: py_error option \<times> nat layout)) 8 0 1 1 1)) 0 0 \<and>
   \<not> filled (tile_at (snd (addWidget (snd (init 2 2 :: py_error option \<times> nat layout)) 8 0 1 1 1)) 0 0) \<and>
   resizeTile (snd (addWidget (snd (init 2 2 :: py_error option \<times> nat layout)) 8 0 1 1 1)) (1, 0) 0 0 (- 1)
     = (None, snd (addWidget (snd (init 2 2)) 8 0 1 1 1)) \<and>
   free_count (snd (addWidget (snd (init 2 2 :: py_error option \<times> nat layout)) 8 0 1 1 1)) (1, 0) 0 0 1 1 1 = 0 \<and>
   resizeTile (snd (addWidget (snd (init 2 2 :: py_error option \<times> nat layout)) 8 0 1 1 1)) (1, 0) 0 0 1
     = (None, snd (addWidget (snd (init 2 2)) 8 0 1 1 1)) \<and>
   free_count (snd (addWidget (snd (init 2 2 :: py_error option \<times> nat layout)) 8 0 1 1 1)) (0, 1) 0 0 1 1 1 = 1 \<and>
   fst (resizeTile (snd (addWidget (snd (init 2 2 :: py_error option \<times> nat layout)) 8 0 1 1 1)) (0, 1) 0 0 1)
     = Some ValueError \<and>
   row_span (tile_at (snd (resizeTile
       (snd (addWidget (snd (init 2 2 :: py_error option \<times> nat layout)) 8 0 1 1 1)) (0, 1) 0 0 1)) 0 0) = 2"
proof -
  let ?g = "snd (init 2 2 :: py_error option \<times> nat layout)"
  let ?s = "snd (addWidget ?g 8 0 1 1 1)"
  have a: "8 \<notin> set (couple_widget ?g)" by code_simp
  have b: "isAreaEmpty ?g 0 1 1 1 = Inr True" by code_simp
  have i: "inv ?s" using addWidget_inv[OF init_inv a b] by simp
  have g: "in_grid ?s 0 0" by code_simp
  have u: "\<not> filled (tile_at ?s 0 0)" by code_simp
  have d1: "unit_direction (1, 0)" and d2: "unit_direction (0, 1)" by (simp_all add: unit_direction_def)
  have f0: "free_count ?s (1, 0) 0 0 1 1 1 = 0" by code_simp
  have f1: "free_count ?s (0, 1) 0 0 1 1 1 = 1" by code_simp
  have t1: "resizeTile ?s (1, 0) 0 0 (- 1) = (None, ?s)"
    using resize_unfilled[OF i g u d1, of "- 1"] by simp
  have t2: "resizeTile ?s (1, 0) 0 0 1 = (None, ?s)"
    using resize_unfilled[OF i g u d1, of 1] f0 by simp
  have t3: "fst (resizeTile ?s (0, 1) 0 0 1) = Some ValueError \<and>
            row_span (tile_at (snd (resizeTile ?s (0, 1) 0 0 1)) 0 0) = 2"
    using resize_unfilled[OF i g u d2, of 1] f1 by simp
  show ?thesis using i g u t1 f0 t2 f1 t3 by simp
qed

end
